theory Spec2Isabelle
  imports Main
begin

section \<open>Data model\<close>

text \<open>
  The wire record \<open>struct UpdateObject\<close>. The C character arrays are held as the C
  string they contain (the bytes before the first NUL). \<open>int\<close> and \<open>long\<close> fields are
  mathematical integers: no arithmetic of the program on them can overflow, except the
  cast \<open>(int)size()\<close> of a container of 2^31 or more elements, which is outside this model.
\<close>

record UpdateObject =
  op_type :: string
  line :: int
  start_col :: int
  end_col :: int
  old_content :: string
  new_content :: string
  timestamp :: string
  ts :: int
  user_id :: string

text \<open>
  What the C++ run time does on a bad access: \<open>std::string::substr\<close> throws
  \<open>std::out_of_range\<close> when the position is past the end, and \<open>vector::operator[]\<close>
  with an index outside the vector is undefined behaviour. Both are results of the model.
\<close>

datatype error = SubstrOutOfRange | LineIndexOutOfBounds

definition MERGE_THRESHOLD :: nat where
  "MERGE_THRESHOLD = 5"


section \<open>C strings\<close>

text \<open>\<open>s.c_str()\<close> read as a C string: the bytes before the first NUL.\<close>

definition c_str :: "string \<Rightarrow> string" where
  "c_str s = takeWhile (\<lambda>c. c \<noteq> CHR 0x00) s"

text \<open>
  \<open>strncpy(field, s.c_str(), sizeof(field) - 1)\<close> into a zero-initialised array of
  \<open>n\<close> bytes, read back as a C string.
\<close>

definition strncpy_field :: "nat \<Rightarrow> string \<Rightarrow> string" where
  "strncpy_field n s = take (n - 1) (c_str s)"

text \<open>\<open>strcmp\<close>: the sign of the first differing byte pair, bytes compared unsigned.\<close>

fun strcmp :: "string \<Rightarrow> string \<Rightarrow> int" where
  "strcmp [] [] = 0"
| "strcmp [] (y # ys) = - 1"
| "strcmp (x # xs) [] = 1"
| "strcmp (x # xs) (y # ys) =
     (if x = y then strcmp xs ys
      else if (of_char x :: nat) < of_char y then - 1 else 1)"

text \<open>\<open>s.substr(pos, n)\<close> and \<open>s.substr(pos)\<close>.\<close>

definition substr :: "string \<Rightarrow> nat \<Rightarrow> nat \<Rightarrow> error + string" where
  "substr s pos n = (if pos > length s then Inl SubstrOutOfRange else Inr (take n (drop pos s)))"

definition substr_from :: "string \<Rightarrow> nat \<Rightarrow> error + string" where
  "substr_from s pos = (if pos > length s then Inl SubstrOutOfRange else Inr (drop pos s))"

section \<open>Merge engine\<close>

definition ranges_overlap :: "int \<Rightarrow> int \<Rightarrow> int \<Rightarrow> int \<Rightarrow> bool" where
  "ranges_overlap a1 b1 a2 b2 = (\<not> (b1 \<le> a2 \<or> b2 \<le> a1))"

text \<open>The condition of the \<open>if\<close> at lines 289-290 of \<open>merge_and_apply\<close>.\<close>

definition conflict :: "UpdateObject \<Rightarrow> UpdateObject \<Rightarrow> bool" where
  "conflict a b =
     (line a = line b \<and> ranges_overlap (start_col a) (end_col a) (start_col b) (end_col b))"

text \<open>
  The loop \<open>for (auto &u : all) if (u.line > max_line) max_line = u.line\<close>, started
  with \<open>max_line = -1\<close>.
\<close>

fun max_line_loop :: "UpdateObject list \<Rightarrow> int \<Rightarrow> int" where
  "max_line_loop [] max_line = max_line"
| "max_line_loop (u # us) max_line =
     max_line_loop us (if line u > max_line then line u else max_line)"

text \<open>The loop \<open>while ((int)doc.size() <= max_line) doc.push_back("")\<close>.\<close>

function extend_doc :: "string list \<Rightarrow> int \<Rightarrow> string list" where
  "extend_doc doc max_line =
     (if int (length doc) \<le> max_line then extend_doc (doc @ [[]]) max_line else doc)"
  by pat_completeness auto
termination
  by (relation "measure (\<lambda>(doc, max_line). nat (max_line + 1 - int (length doc)))") auto

text \<open>
  The inner loop over \<open>j\<close> of the conflict resolution, from index \<open>j\<close> on, for a fixed
  \<open>i\<close>; \<open>break\<close> returns the flags at once.
\<close>

function inner_loop :: "UpdateObject list \<Rightarrow> nat \<Rightarrow> nat \<Rightarrow> bool list \<Rightarrow> bool list" where
  "inner_loop all_ops i j keep =
     (if j < length all_ops then
        (if \<not> keep ! j then inner_loop all_ops i (j + 1) keep
         else if conflict (all_ops ! i) (all_ops ! j) then
           (if ts (all_ops ! i) > ts (all_ops ! j) then
              inner_loop all_ops i (j + 1) (keep[j := False])
            else if ts (all_ops ! i) < ts (all_ops ! j) then keep[i := False]
            else if strcmp (user_id (all_ops ! i)) (user_id (all_ops ! j)) \<le> 0 then
              inner_loop all_ops i (j + 1) (keep[j := False])
            else keep[i := False])
         else inner_loop all_ops i (j + 1) keep)
      else keep)"
  by pat_completeness auto
termination
  by (relation "measure (\<lambda>(all_ops, i, j, keep). length all_ops - j)") auto

text \<open>The outer loop over \<open>i\<close>, from index \<open>i\<close> on.\<close>

function outer_loop :: "UpdateObject list \<Rightarrow> nat \<Rightarrow> bool list \<Rightarrow> bool list" where
  "outer_loop all_ops i keep =
     (if i < length all_ops then
        (if \<not> keep ! i then outer_loop all_ops (i + 1) keep
         else outer_loop all_ops (i + 1) (inner_loop all_ops i (i + 1) keep))
      else keep)"
  by pat_completeness auto
termination
  by (relation "measure (\<lambda>(all_ops, i, keep). length all_ops - i)") auto

text \<open>\<open>vector<bool> keep(n, true)\<close> after the two loops.\<close>

definition resolve_conflicts :: "UpdateObject list \<Rightarrow> bool list" where
  "resolve_conflicts all_ops = outer_loop all_ops 0 (replicate (length all_ops) True)"

text \<open>The operations \<open>all[i]\<close> with \<open>keep[i]\<close>, in batch order.\<close>

definition survivors :: "UpdateObject list \<Rightarrow> UpdateObject list" where
  "survivors all_ops = map fst (filter snd (zip all_ops (resolve_conflicts all_ops)))"

text \<open>
  \<open>updates_by_line[l].push_back(u)\<close> on the \<open>unordered_map\<close>, held as an association
  list in order of first insertion: a missing key is created with an empty vector. The
  replay below walks the list in this order (lemma \<open>replay_any_order\<close>: any other order
  gives the same document).
\<close>

fun push_by_line :: "int \<Rightarrow> UpdateObject \<Rightarrow> (int \<times> UpdateObject list) list
    \<Rightarrow> (int \<times> UpdateObject list) list" where
  "push_by_line l u [] = [(l, [u])]"
| "push_by_line l u ((k, us) # rest) =
     (if k = l then (k, us @ [u]) # rest else (k, us) # push_by_line l u rest)"

fun group_by_line :: "UpdateObject list \<Rightarrow> (int \<times> UpdateObject list) list
    \<Rightarrow> (int \<times> UpdateObject list) list" where
  "group_by_line [] m = m"
| "group_by_line (u # us) m = group_by_line us (push_by_line (line u) u m)"

text \<open>
  \<open>std::sort\<close> with the comparator \<open>a.start_col > b.start_col\<close>. The standard leaves
  the order of operations with equal \<open>start_col\<close> open; the model keeps them in their
  order of arrival (an insertion sort, which is what the common library implementations
  run on short ranges).
\<close>

definition sort_by_start_desc :: "UpdateObject list \<Rightarrow> UpdateObject list" where
  "sort_by_start_desc ops = sort_key (\<lambda>u. - start_col u) ops"

text \<open>The body of the loop \<open>for (auto &op : ops)\<close>: one operation applied to \<open>base\<close>.\<close>

definition clamp_col :: "string \<Rightarrow> int \<Rightarrow> int" where
  "clamp_col base c = (let c0 = max 0 c in if c0 > int (length base) then int (length base) else c0)"

definition apply_op :: "string \<Rightarrow> UpdateObject \<Rightarrow> error + string" where
  "apply_op base u =
     (let sc = clamp_col base (start_col u);
          ec = clamp_col base (end_col u)
      in case substr base 0 (nat sc) of
           Inl e \<Rightarrow> Inl e
         | Inr left \<Rightarrow>
             (case (if ec < int (length base) then substr_from base (nat ec) else Inr []) of
                Inl e \<Rightarrow> Inl e
              | Inr right \<Rightarrow> Inr (left @ new_content u @ right)))"

fun apply_ops :: "string \<Rightarrow> UpdateObject list \<Rightarrow> error + string" where
  "apply_ops base [] = Inr base"
| "apply_ops base (u # us) =
     (case apply_op base u of Inl e \<Rightarrow> Inl e | Inr base' \<Rightarrow> apply_ops base' us)"

text \<open>
  The loop \<open>for (auto &kv : updates_by_line)\<close>: \<open>doc[line_no]\<close> is read, the sorted
  operations of the line are applied, and \<open>doc[line_no]\<close> is written.
\<close>

fun replay :: "(int \<times> UpdateObject list) list \<Rightarrow> string list \<Rightarrow> error + string list" where
  "replay [] doc = Inr doc"
| "replay ((line_no, ops) # rest) doc =
     (if line_no < 0 \<or> int (length doc) \<le> line_no then Inl LineIndexOutOfBounds
      else case apply_ops (doc ! nat line_no) (sort_by_start_desc ops) of
             Inl e \<Rightarrow> Inl e
           | Inr base \<Rightarrow> replay rest (doc[nat line_no := base]))"

text \<open>
  \<open>merge_and_apply\<close> from line 273 to line 337: the document in memory after the merge
  of a non-empty batch \<open>all\<close>.
\<close>

definition merge_lines :: "UpdateObject list \<Rightarrow> string list \<Rightarrow> error + string list" where
  "merge_lines all_ops doc =
     replay (group_by_line (survivors all_ops) [])
       (extend_doc doc (max_line_loop all_ops (- 1)))"

text \<open>
  Closed forms used to state the results: the line that \<open>apply_op\<close> returns (lemma
  \<open>apply_op_eq\<close> below), and the line after the sorted operations of a group have been
  applied in turn.
\<close>

definition spliced :: "string \<Rightarrow> UpdateObject \<Rightarrow> string" where
  "spliced base u =
     take (nat (clamp_col base (start_col u))) base @ new_content u @
     drop (nat (clamp_col base (end_col u))) base"

definition replayed_line :: "string \<Rightarrow> UpdateObject list \<Rightarrow> string" where
  "replayed_line base ops = foldl spliced base (sort_by_start_desc ops)"

text \<open>
  The order of the tie-break of lines 292-308, as a relation between two operations:
  \<open>x\<close> has the later time, or the same time and the smaller user identifier.
\<close>

definition beats :: "UpdateObject \<Rightarrow> UpdateObject \<Rightarrow> bool" where
  "beats x y = (ts x > ts y \<or> (ts x = ts y \<and> strcmp (user_id x) (user_id y) < 0))"

section \<open>Merge engine with its effects\<close>

text \<open>
  The part of the process state that \<open>merge_and_apply\<close> and \<open>try_merge_if_needed\<close>
  touch: the vectors that \<open>recv_ptr\<close>, \<open>local_ptr\<close> and \<open>recent_ptr\<close> currently point
  to, the document file as the lines \<open>read_file\<close> returns and \<open>write_file_from_lines\<close>
  writes, and a log of the input and output performed.
\<close>

datatype io_event =
    ReadFile
  | WriteFile "string list"
  | DisplayFile "string list"
  | PrintMergingComplete

record editor_state =
  recv_buf :: "UpdateObject list"
  local_buf :: "UpdateObject list"
  recent :: "string list"
  doc_file :: "string list"
  io_log :: "io_event list"

definition merge_and_apply :: "UpdateObject list \<Rightarrow> editor_state \<Rightarrow> error + editor_state" where
  "merge_and_apply local_ops st =
     (let doc = doc_file st;
          st1 = st\<lparr>io_log := io_log st @ [ReadFile]\<rparr>;
          recv_snapshot = recv_buf st1;
          st2 = st1\<lparr>recv_buf := []\<rparr>;
          all_ops = local_ops @ recv_snapshot
      in if all_ops = [] then Inr st2
         else (case merge_lines all_ops doc of
                 Inl e \<Rightarrow> Inl e
               | Inr doc' \<Rightarrow>
                   Inr (st2\<lparr>doc_file := doc',
                            io_log := io_log st2 @
                              [WriteFile doc', DisplayFile doc', PrintMergingComplete]\<rparr>)))"

definition try_merge_if_needed :: "UpdateObject list \<Rightarrow> editor_state \<Rightarrow> error + editor_state" where
  "try_merge_if_needed local_ops_for_merge st =
     (let recv_snapshot = recv_buf st;
          local_snapshot = local_buf st;
          total = length recv_snapshot + length local_snapshot + length local_ops_for_merge
      in if total \<ge> MERGE_THRESHOLD then
           (let to_merge = local_ops_for_merge @ local_snapshot
            in merge_and_apply to_merge (st\<lparr>local_buf := []\<rparr>))
         else Inr st)"

section \<open>Diff engine\<close>

text \<open>The loop of line 430, from column \<open>start\<close> on (the variable \<open>start_col\<close> of the source).\<close>

function prefix_loop :: "string \<Rightarrow> string \<Rightarrow> int \<Rightarrow> int \<Rightarrow> int" where
  "prefix_loop old_line new_line minlen start =
     (if start < minlen \<and> old_line ! nat start = new_line ! nat start
      then prefix_loop old_line new_line minlen (start + 1)
      else start)"
  by pat_completeness auto
termination
  by (relation "measure (\<lambda>(old_line, new_line, minlen, start). nat (minlen - start))") auto

text \<open>The loop of lines 434-438, returning \<open>(old_end, new_end)\<close>.\<close>

function suffix_loop :: "string \<Rightarrow> string \<Rightarrow> int \<Rightarrow> int \<Rightarrow> int \<Rightarrow> int \<times> int" where
  "suffix_loop old_line new_line start old_end new_end =
     (if old_end - 1 \<ge> start \<and> new_end - 1 \<ge> start \<and>
         old_line ! nat (old_end - 1) = new_line ! nat (new_end - 1)
      then suffix_loop old_line new_line start (old_end - 1) (new_end - 1)
      else (old_end, new_end))"
  by pat_completeness auto
termination
  by (relation "measure (\<lambda>(old_line, new_line, start, old_end, new_end).
        nat (old_end - start))") auto

text \<open>
  \<open>start_col\<close> after the loop of line 430, and \<open>(old_end, new_end)\<close> after the loop of
  lines 434-438, for the two lines compared.
\<close>

definition diff_start :: "string \<Rightarrow> string \<Rightarrow> int" where
  "diff_start old_line new_line =
     prefix_loop old_line new_line (min (int (length old_line)) (int (length new_line))) 0"

definition diff_ends :: "string \<Rightarrow> string \<Rightarrow> int \<times> int" where
  "diff_ends old_line new_line =
     suffix_loop old_line new_line (diff_start old_line new_line)
       (int (length old_line)) (int (length new_line))"

text \<open>
  Lines 444-455: the record \<open>upd\<close>, zero-initialised and then filled. \<open>now\<close> is the
  value of \<open>time(nullptr)\<close> and \<open>ctime_now\<close> the string \<open>ctime(&now)\<close>; the newline that
  ends it is cut off.
\<close>

definition make_update :: "int \<Rightarrow> int \<Rightarrow> int \<Rightarrow> int \<Rightarrow> string \<Rightarrow> string \<Rightarrow> string \<Rightarrow> int \<Rightarrow> string
    \<Rightarrow> UpdateObject" where
  "make_update i start old_end new_end old_part new_part uid now ctime_now =
     \<lparr>op_type = strncpy_field 10 ''replace'',
      line = i,
      start_col = start,
      end_col = max old_end new_end,
      old_content = strncpy_field 256 old_part,
      new_content = strncpy_field 256 new_part,
      timestamp = takeWhile (\<lambda>c. c \<noteq> CHR 0x0A) (strncpy_field 32 ctime_now),
      ts = now,
      user_id = strncpy_field 32 uid\<rparr>"

text \<open>
  The body of the loop of \<open>detect_changes\<close> for line \<open>i\<close>, up to the construction of
  \<open>upd\<close>: \<open>None\<close> where the body runs \<open>continue\<close>.
\<close>

definition diff_line :: "int \<Rightarrow> string \<Rightarrow> string \<Rightarrow> string \<Rightarrow> int \<Rightarrow> string
    \<Rightarrow> error + UpdateObject option" where
  "diff_line i old_line new_line uid now ctime_now =
     (if old_line = new_line then Inr None
      else
        (let start = diff_start old_line new_line;
             old_end = fst (diff_ends old_line new_line);
             new_end = snd (diff_ends old_line new_line)
         in case (if start < old_end
                  then substr old_line (nat start) (nat (old_end - start))
                  else Inr []) of
              Inl e \<Rightarrow> Inl e
            | Inr old_part \<Rightarrow>
                (case (if start < new_end
                       then substr new_line (nat start) (nat (new_end - start))
                       else Inr []) of
                   Inl e \<Rightarrow> Inl e
                 | Inr new_part \<Rightarrow>
                     if old_part = new_part then Inr None
                     else Inr (Some (make_update i start old_end new_end old_part new_part
                                       uid now ctime_now)))))"

text \<open>\<open>(i < old_n) ? old_lines[i] : ""\<close>.\<close>

definition line_or_empty :: "string list \<Rightarrow> int \<Rightarrow> string" where
  "line_or_empty lines i = (if i < int (length lines) then lines ! nat i else [])"

text \<open>
  The loop of \<open>detect_changes\<close> from index \<open>i\<close> on: the operations it builds and
  appends to \<open>local_ptr\<close>, in order. The clock is read once for each operation built;
  \<open>clock i\<close> is its value, and \<open>ctime_of\<close> the function \<open>ctime\<close>.
\<close>

function detect_loop :: "string list \<Rightarrow> string list \<Rightarrow> string \<Rightarrow> (int \<Rightarrow> int) \<Rightarrow> (int \<Rightarrow> string)
    \<Rightarrow> int \<Rightarrow> UpdateObject list \<Rightarrow> error + UpdateObject list" where
  "detect_loop old_lines new_lines uid clock ctime_of i emitted =
     (if i < max (int (length old_lines)) (int (length new_lines)) then
        (case diff_line i (line_or_empty old_lines i) (line_or_empty new_lines i) uid
                (clock i) (ctime_of (clock i)) of
           Inl e \<Rightarrow> Inl e
         | Inr None \<Rightarrow> detect_loop old_lines new_lines uid clock ctime_of (i + 1) emitted
         | Inr (Some upd) \<Rightarrow>
             detect_loop old_lines new_lines uid clock ctime_of (i + 1) (emitted @ [upd]))
      else Inr emitted)"
  by pat_completeness auto
termination
  by (relation "measure (\<lambda>(old_lines, new_lines, uid, clock, ctime_of, i, emitted).
        nat (max (int (length old_lines)) (int (length new_lines)) - i))") auto

definition detect_changes :: "string list \<Rightarrow> string list \<Rightarrow> string \<Rightarrow> (int \<Rightarrow> int) \<Rightarrow> (int \<Rightarrow> string)
    \<Rightarrow> error + UpdateObject list" where
  "detect_changes old_lines new_lines uid clock ctime_of =
     detect_loop old_lines new_lines uid clock ctime_of 0 []"

text \<open>
  The record that the loop body builds for a changed line, in closed form (lemma
  \<open>diff_line_eq\<close> below shows that it is the one the code builds).
\<close>

definition changed_line_update :: "int \<Rightarrow> string \<Rightarrow> string \<Rightarrow> string \<Rightarrow> int \<Rightarrow> string \<Rightarrow> UpdateObject" where
  "changed_line_update i a b uid now ctime_now =
     make_update i (diff_start a b) (fst (diff_ends a b)) (snd (diff_ends a b))
       (take (nat (fst (diff_ends a b) - diff_start a b)) (drop (nat (diff_start a b)) a))
       (take (nat (snd (diff_ends a b) - diff_start a b)) (drop (nat (diff_start a b)) b))
       uid now ctime_now"

section \<open>Snapshot buffers\<close>

text \<open>
  A buffer behind one of the global \<open>shared_ptr\<close>s, with the aliasing explicit: \<open>heap\<close>
  holds every vector allocated by \<open>make_shared\<close> so far, an address is an index into it,
  and \<open>cur_ptr\<close> is the address the global pointer holds. A reader that copied the
  pointer keeps the vector alive, so no vector is ever freed here. The steps of a writer
  are the statements of the source, each taken as atomic.
\<close>

record 'a cow_buffer =
  heap :: "'a list list"
  cur_ptr :: nat




text \<open>\<open>std::make_shared<std::vector<T>>()\<close>: a new empty vector.\<close>

definition make_shared_empty :: "'a cow_buffer \<Rightarrow> 'a cow_buffer \<times> nat" where
  "make_shared_empty s = (s\<lparr>heap := heap s @ [[]]\<rparr>, length (heap s))"






section \<open>Proof setup\<close>

text \<open>
  The equations of the loops are unconditional; they are unfolded by hand in the proofs and
  by name in the evaluations.
\<close>

declare prefix_loop.simps [simp del]
declare suffix_loop.simps [simp del]
declare detect_loop.simps [simp del]
declare inner_loop.simps [simp del]
declare outer_loop.simps [simp del]
declare extend_doc.simps [simp del]

section \<open>Replay: columns are clamped\<close>

lemma clamp_col_bounds: "0 \<le> clamp_col base c \<and> clamp_col base c \<le> int (length base)"
  by (auto simp: clamp_col_def Let_def max_def)

lemma apply_op_eq:
  "apply_op base u =
     Inr (take (nat (clamp_col base (start_col u))) base @ new_content u @
          drop (nat (clamp_col base (end_col u))) base)"
proof -
  have s: "nat (clamp_col base (start_col u)) \<le> length base"
    using clamp_col_bounds [of base "start_col u"] by linarith
  have e: "nat (clamp_col base (end_col u)) \<le> length base"
    using clamp_col_bounds [of base "end_col u"] by linarith
  show ?thesis
  proof (cases "clamp_col base (end_col u) < int (length base)")
    case True
    then show ?thesis using s e by (simp add: apply_op_def Let_def substr_def substr_from_def)
  next
    case False
    then have "nat (clamp_col base (end_col u)) = length base" using e by linarith
    then show ?thesis using s False by (simp add: apply_op_def Let_def substr_def)
  qed
qed

lemma apply_ops_total: "\<exists>s. apply_ops base us = Inr s"
  by (induction us arbitrary: base) (simp_all add: apply_op_eq)

lemma replay_no_substr_error: "replay groups doc \<noteq> Inl SubstrOutOfRange"
proof (induction groups arbitrary: doc)
  case Nil
  then show ?case by simp
next
  case (Cons g groups)
  obtain line_no ops where g: "g = (line_no, ops)" by (cases g)
  obtain s where s: "apply_ops (doc ! nat line_no) (sort_by_start_desc ops) = Inr s"
    using apply_ops_total by blast
  show ?case using Cons.IH s by (simp add: g)
qed

section \<open>Merge trigger\<close>

lemma merge_and_apply_log:
  "merge_and_apply local_ops st = Inr st' \<Longrightarrow> length (io_log st') > length (io_log st)"
  by (auto simp: merge_and_apply_def Let_def split: sum.splits if_splits)

text \<open>
  C6. \<open>try_merge_if_needed\<close> calls \<open>merge_and_apply\<close> exactly when the number of
  buffered local operations plus the number of buffered remote operations plus the
  number of incoming operations is at least 5. A call of \<open>merge_and_apply\<close> always shows:
  it reads the document file, so the state it returns differs from the one it was given
  (or it fails); below the threshold the state is returned as it was.
\<close>

theorem merge_trigger_threshold:
  "(try_merge_if_needed incoming st \<noteq> Inr st) =
     (5 \<le> length (local_buf st) + length (recv_buf st) + length incoming) \<and>
   (if 5 \<le> length (local_buf st) + length (recv_buf st) + length incoming
    then try_merge_if_needed incoming st =
           merge_and_apply (incoming @ local_buf st) (st\<lparr>local_buf := []\<rparr>)
    else try_merge_if_needed incoming st = Inr st)"
proof -
  have "merge_and_apply (incoming @ local_buf st) (st\<lparr>local_buf := []\<rparr>) \<noteq> Inr st"
    using merge_and_apply_log [of "incoming @ local_buf st" "st\<lparr>local_buf := []\<rparr>" st] by auto
  then show ?thesis
    by (auto simp: try_merge_if_needed_def MERGE_THRESHOLD_def Let_def)
qed

theorem merge_trigger_threshold_witness:
  "try_merge_if_needed []
     \<lparr>recv_buf = replicate 4 \<lparr>op_type = ''replace'', line = 0, start_col = 0, end_col = 5,
          old_content = ''Hello'', new_content = ''HELLO'', timestamp = [], ts = 100,
          user_id = ''alice''\<rparr>,
      local_buf = [], recent = [], doc_file = [], io_log = []\<rparr> =
   Inr \<lparr>recv_buf = replicate 4 \<lparr>op_type = ''replace'', line = 0, start_col = 0, end_col = 5,
          old_content = ''Hello'', new_content = ''HELLO'', timestamp = [], ts = 100,
          user_id = ''alice''\<rparr>,
      local_buf = [], recent = [], doc_file = [], io_log = []\<rparr> \<and>
   try_merge_if_needed []
     \<lparr>recv_buf = replicate 5 \<lparr>op_type = ''replace'', line = 0, start_col = 0, end_col = 5,
          old_content = ''Hello'', new_content = ''HELLO'', timestamp = [], ts = 100,
          user_id = ''alice''\<rparr>,
      local_buf = [], recent = [], doc_file = [], io_log = []\<rparr> \<noteq>
   Inr \<lparr>recv_buf = replicate 5 \<lparr>op_type = ''replace'', line = 0, start_col = 0, end_col = 5,
          old_content = ''Hello'', new_content = ''HELLO'', timestamp = [], ts = 100,
          user_id = ''alice''\<rparr>,
      local_buf = [], recent = [], doc_file = [], io_log = []\<rparr>"
  using merge_trigger_threshold [THEN conjunct1, of "[]"
      "\<lparr>recv_buf = replicate 4 \<lparr>op_type = ''replace'', line = 0, start_col = 0, end_col = 5,
          old_content = ''Hello'', new_content = ''HELLO'', timestamp = [], ts = 100,
          user_id = ''alice''\<rparr>,
      local_buf = [], recent = [], doc_file = [], io_log = []\<rparr>"]
    merge_trigger_threshold [THEN conjunct1, of "[]"
      "\<lparr>recv_buf = replicate 5 \<lparr>op_type = ''replace'', line = 0, start_col = 0, end_col = 5,
          old_content = ''Hello'', new_content = ''HELLO'', timestamp = [], ts = 100,
          user_id = ''alice''\<rparr>,
      local_buf = [], recent = [], doc_file = [], io_log = []\<rparr>"]
  by simp

section \<open>Merge of an empty batch\<close>

text \<open>
  C5, as the code has it. When the local operations handed over and the remote buffer
  are both empty, \<open>merge_and_apply\<close> succeeds, leaves the document file, the local buffer
  and the notifications as they were and writes nothing; the one effect is the read of
  the document file, which comes before the test for an empty batch.
\<close>

theorem merge_empty_batch:
  "local_ops @ recv_buf st = [] \<Longrightarrow>
     merge_and_apply local_ops st = Inr (st\<lparr>io_log := io_log st @ [ReadFile]\<rparr>)"
  by (simp add: merge_and_apply_def Let_def)

theorem merge_empty_batch_witness:
  "merge_and_apply []
     \<lparr>recv_buf = [], local_buf = [], recent = [''n''], doc_file = [''Hello World'', ''x''],
      io_log = [DisplayFile []]\<rparr> =
   Inr \<lparr>recv_buf = [], local_buf = [], recent = [''n''], doc_file = [''Hello World'', ''x''],
        io_log = [DisplayFile [], ReadFile]\<rparr>"
  using merge_empty_batch [of "[]"
      "\<lparr>recv_buf = [], local_buf = [], recent = [''n''], doc_file = [''Hello World'', ''x''],
        io_log = [DisplayFile []]\<rparr>"]
  by simp

text \<open>
  The claim as the specification states it (no read of the document file) fails: on a
  state whose log is empty, the merge of the empty batch leaves a log with the read.
\<close>

theorem merge_empty_batch_reads_file:
  "merge_and_apply []
     \<lparr>recv_buf = [], local_buf = [], recent = [], doc_file = [''Hello World''], io_log = []\<rparr> =
   Inr \<lparr>recv_buf = [], local_buf = [], recent = [], doc_file = [''Hello World''],
        io_log = [ReadFile]\<rparr>"
  by (simp add: merge_and_apply_def Let_def)

section \<open>Snapshot isolation\<close>





section \<open>Diff engine: what is emitted\<close>

lemma prefix_loop_inv:
  "0 \<le> start \<Longrightarrow> start \<le> minlen \<Longrightarrow> minlen \<le> int (length a) \<Longrightarrow> minlen \<le> int (length b) \<Longrightarrow>
   take (nat start) a = take (nat start) b \<Longrightarrow>
   start \<le> prefix_loop a b minlen start \<and> prefix_loop a b minlen start \<le> minlen \<and>
   take (nat (prefix_loop a b minlen start)) a = take (nat (prefix_loop a b minlen start)) b"
proof (induction a b minlen start rule: prefix_loop.induct)
  case (1 a b minlen start)
  show ?case
  proof (cases "start < minlen \<and> a ! nat start = b ! nat start")
    case True
    have n: "nat (start + 1) = Suc (nat start)" using "1.prems"(1) by linarith
    have la: "nat start < length a" and lb: "nat start < length b"
      using True "1.prems" by linarith+
    have "take (nat (start + 1)) a = take (nat (start + 1)) b"
      using True "1.prems"(5) la lb by (simp add: n take_Suc_conv_app_nth)
    with "1.IH" [OF True] "1.prems" True
    have "start + 1 \<le> prefix_loop a b minlen (start + 1) \<and>
          prefix_loop a b minlen (start + 1) \<le> minlen \<and>
          take (nat (prefix_loop a b minlen (start + 1))) a =
          take (nat (prefix_loop a b minlen (start + 1))) b"
      by simp
    moreover have "prefix_loop a b minlen start = prefix_loop a b minlen (start + 1)"
      using True by (subst prefix_loop.simps) simp
    ultimately show ?thesis by simp
  next
    case False
    then have "prefix_loop a b minlen start = start"
      by (subst prefix_loop.simps) auto
    then show ?thesis using "1.prems" by simp
  qed
qed

lemma suffix_loop_inv:
  "0 \<le> start \<Longrightarrow> start \<le> old_end \<Longrightarrow> old_end \<le> int (length a) \<Longrightarrow>
   start \<le> new_end \<Longrightarrow> new_end \<le> int (length b) \<Longrightarrow>
   drop (nat old_end) a = drop (nat new_end) b \<Longrightarrow>
   start \<le> fst (suffix_loop a b start old_end new_end) \<and>
   fst (suffix_loop a b start old_end new_end) \<le> old_end \<and>
   start \<le> snd (suffix_loop a b start old_end new_end) \<and>
   snd (suffix_loop a b start old_end new_end) \<le> new_end \<and>
   drop (nat (fst (suffix_loop a b start old_end new_end))) a =
   drop (nat (snd (suffix_loop a b start old_end new_end))) b"
proof (induction a b start old_end new_end rule: suffix_loop.induct)
  case (1 a b start old_end new_end)
  let ?c = "old_end - 1 \<ge> start \<and> new_end - 1 \<ge> start \<and>
            a ! nat (old_end - 1) = b ! nat (new_end - 1)"
  show ?case
  proof (cases ?c)
    case True
    have na: "Suc (nat (old_end - 1)) = nat old_end" and nb: "Suc (nat (new_end - 1)) = nat new_end"
      using True "1.prems"(1) by linarith+
    have la: "nat (old_end - 1) < length a" and lb: "nat (new_end - 1) < length b"
      using True "1.prems" by linarith+
    have "drop (nat (old_end - 1)) a = a ! nat (old_end - 1) # drop (nat old_end) a"
      using Cons_nth_drop_Suc [OF la] na by simp
    moreover have "drop (nat (new_end - 1)) b = b ! nat (new_end - 1) # drop (nat new_end) b"
      using Cons_nth_drop_Suc [OF lb] nb by simp
    ultimately have d: "drop (nat (old_end - 1)) a = drop (nat (new_end - 1)) b"
      using True "1.prems"(6) by simp
    have ih: "start \<le> fst (suffix_loop a b start (old_end - 1) (new_end - 1)) \<and>
          fst (suffix_loop a b start (old_end - 1) (new_end - 1)) \<le> old_end - 1 \<and>
          start \<le> snd (suffix_loop a b start (old_end - 1) (new_end - 1)) \<and>
          snd (suffix_loop a b start (old_end - 1) (new_end - 1)) \<le> new_end - 1 \<and>
          drop (nat (fst (suffix_loop a b start (old_end - 1) (new_end - 1)))) a =
          drop (nat (snd (suffix_loop a b start (old_end - 1) (new_end - 1)))) b"
      using "1.IH" [OF True] "1.prems" True d by simp
    have "suffix_loop a b start old_end new_end = suffix_loop a b start (old_end - 1) (new_end - 1)"
      using True by (subst suffix_loop.simps) simp
    then show ?thesis using ih by simp
  next
    case False
    then have "suffix_loop a b start old_end new_end = (old_end, new_end)"
      by (subst suffix_loop.simps) auto
    then show ?thesis using "1.prems" by simp
  qed
qed

lemma diff_start_bounds:
  "0 \<le> diff_start a b \<and> diff_start a b \<le> int (length a) \<and> diff_start a b \<le> int (length b) \<and>
   take (nat (diff_start a b)) a = take (nat (diff_start a b)) b"
  using prefix_loop_inv [of 0 "min (int (length a)) (int (length b))" a b]
  by (simp add: diff_start_def)

lemma diff_ends_bounds:
  "diff_start a b \<le> fst (diff_ends a b) \<and> fst (diff_ends a b) \<le> int (length a) \<and>
   diff_start a b \<le> snd (diff_ends a b) \<and> snd (diff_ends a b) \<le> int (length b) \<and>
   drop (nat (fst (diff_ends a b))) a = drop (nat (snd (diff_ends a b))) b"
  using suffix_loop_inv [of "diff_start a b" "int (length a)" a "int (length b)" b]
    diff_start_bounds [of a b]
  by (simp add: diff_ends_def)

lemma split_three:
  "p \<le> e \<Longrightarrow> e \<le> length xs \<Longrightarrow> take p xs @ take (e - p) (drop p xs) @ drop e xs = xs"
proof -
  assume pe: "p \<le> e" and "e \<le> length xs"
  have "take (e - p) (drop p xs) @ drop e xs = drop p xs"
    using pe append_take_drop_id [of "e - p" "drop p xs"] by simp
  then show ?thesis by simp
qed

lemma diff_reconstruct:
  "take (nat (diff_start a b)) a @
   take (nat (snd (diff_ends a b) - diff_start a b)) (drop (nat (diff_start a b)) b) @
   drop (nat (fst (diff_ends a b))) a = b"
proof -
  let ?p = "diff_start a b" and ?ne = "snd (diff_ends a b)"
  have b: "nat ?p \<le> nat ?ne" "nat ?ne \<le> length b" "nat (?ne - ?p) = nat ?ne - nat ?p"
    using diff_start_bounds [of a b] diff_ends_bounds [of a b] by linarith+
  show ?thesis
    using split_three [OF b(1) b(2)] diff_start_bounds [of a b] diff_ends_bounds [of a b] b(3)
    by simp
qed

lemma diff_parts_differ:
  assumes "a \<noteq> b"
  shows "take (nat (fst (diff_ends a b) - diff_start a b)) (drop (nat (diff_start a b)) a) \<noteq>
         take (nat (snd (diff_ends a b) - diff_start a b)) (drop (nat (diff_start a b)) b)"
proof
  let ?p = "diff_start a b" and ?oe = "fst (diff_ends a b)"
  assume eq: "take (nat (?oe - ?p)) (drop (nat ?p) a) =
     take (nat (snd (diff_ends a b) - ?p)) (drop (nat ?p) b)"
  have a: "nat ?p \<le> nat ?oe" "nat ?oe \<le> length a" "nat (?oe - ?p) = nat ?oe - nat ?p"
    using diff_start_bounds [of a b] diff_ends_bounds [of a b] by linarith+
  have "take (nat ?p) a @ take (nat (?oe - ?p)) (drop (nat ?p) a) @ drop (nat ?oe) a = a"
    using split_three [OF a(1) a(2)] a(3) by simp
  with eq diff_reconstruct [of a b] assms show False by simp
qed

lemma diff_line_eq:
  "diff_line i a b uid now ctime_now =
     Inr (if a = b then None
          else Some (make_update i (diff_start a b) (fst (diff_ends a b)) (snd (diff_ends a b))
                 (take (nat (fst (diff_ends a b) - diff_start a b)) (drop (nat (diff_start a b)) a))
                 (take (nat (snd (diff_ends a b) - diff_start a b)) (drop (nat (diff_start a b)) b))
                 uid now ctime_now))"
proof (cases "a = b")
  case True
  then show ?thesis by (simp add: diff_line_def)
next
  case False
  let ?p = "diff_start a b" and ?oe = "fst (diff_ends a b)" and ?ne = "snd (diff_ends a b)"
  have pa: "nat ?p \<le> length a" and pb: "nat ?p \<le> length b"
    using diff_start_bounds [of a b] by linarith+
  have o: "(if ?p < ?oe then substr a (nat ?p) (nat (?oe - ?p)) else Inr []) =
           Inr (take (nat (?oe - ?p)) (drop (nat ?p) a))"
    using pa by (simp add: substr_def)
  have n: "(if ?p < ?ne then substr b (nat ?p) (nat (?ne - ?p)) else Inr []) =
           Inr (take (nat (?ne - ?p)) (drop (nat ?p) b))"
    using pb by (simp add: substr_def)
  show ?thesis
    using False diff_parts_differ [OF False]
    by (simp add: diff_line_def Let_def o n)
qed

lemma detect_loop_eq:
  "detect_loop old_lines new_lines uid clock ctime_of i emitted =
     Inr (emitted @
       map (\<lambda>k. changed_line_update k (line_or_empty old_lines k) (line_or_empty new_lines k)
                  uid (clock k) (ctime_of (clock k)))
         (filter (\<lambda>k. line_or_empty old_lines k \<noteq> line_or_empty new_lines k)
            [i..max (int (length old_lines)) (int (length new_lines)) - 1]))"
proof (induction old_lines new_lines uid clock ctime_of i emitted rule: detect_loop.induct)
  case (1 old_lines new_lines uid clock ctime_of i emitted)
  let ?n = "max (int (length old_lines)) (int (length new_lines))"
  show ?case
  proof (cases "i < ?n")
    case False
    then have "[i..?n - 1] = []" by simp
    then show ?thesis using False
      by (subst detect_loop.simps) simp
  next
    case True
    then have u: "[i..?n - 1] = i # [i + 1..?n - 1]" by (simp add: upto_rec1)
    show ?thesis
    proof (cases "line_or_empty old_lines i = line_or_empty new_lines i")
      case same: True
      then have d: "diff_line i (line_or_empty old_lines i) (line_or_empty new_lines i) uid
                (clock i) (ctime_of (clock i)) = Inr None"
        by (simp add: diff_line_eq)
      have "detect_loop old_lines new_lines uid clock ctime_of i emitted =
            detect_loop old_lines new_lines uid clock ctime_of (i + 1) emitted"
        using True by (subst detect_loop.simps) (simp only: d if_True sum.case option.case)
      then show ?thesis
        using same "1.IH"(1) [OF True d] by (simp add: u)
    next
      case differ: False
      then have d: "diff_line i (line_or_empty old_lines i) (line_or_empty new_lines i) uid
                (clock i) (ctime_of (clock i)) =
             Inr (Some (changed_line_update i (line_or_empty old_lines i)
                    (line_or_empty new_lines i) uid (clock i) (ctime_of (clock i))))"
        by (simp add: diff_line_eq changed_line_update_def)
      have "detect_loop old_lines new_lines uid clock ctime_of i emitted =
            detect_loop old_lines new_lines uid clock ctime_of (i + 1)
              (emitted @ [changed_line_update i (line_or_empty old_lines i)
                    (line_or_empty new_lines i) uid (clock i) (ctime_of (clock i))])"
        using True by (subst detect_loop.simps) (simp only: d if_True sum.case option.case)
      then show ?thesis
        using differ "1.IH"(2) [OF True d] by (simp add: u)
    qed
  qed
qed

lemma filter_eq_upto: "m \<le> i \<Longrightarrow> i \<le> n \<Longrightarrow> filter (\<lambda>k. k = i) [m..n] = [i]"
proof -
  assume a: "m \<le> i" "i \<le> n"
  have "[m..n] = [m..i - 1] @ i # [i + 1..n]" using a by (rule upto_split3)
  moreover have "filter (\<lambda>k. k = i) [m..i - 1] = []" by (auto simp: filter_empty_conv)
  moreover have "filter (\<lambda>k. k = i) [i + 1..n] = []" by (auto simp: filter_empty_conv)
  ultimately show ?thesis by simp
qed

lemma strncpy_field_length: "length (strncpy_field n s) \<le> n - 1"
  by (simp add: strncpy_field_def)

lemma strncpy_field_id:
  "length s \<le> n - 1 \<Longrightarrow> CHR 0x00 \<notin> set s \<Longrightarrow> strncpy_field n s = s"
proof -
  assume l: "length s \<le> n - 1" and z: "CHR 0x00 \<notin> set s"
  have "takeWhile (\<lambda>c. c \<noteq> CHR 0x00) s = s" using z by (auto simp: takeWhile_eq_all_conv)
  then have "c_str s = s" by (simp add: c_str_def)
  then show ?thesis using l by (simp add: strncpy_field_def)
qed

lemma hello_example:
  "diff_line 0 ''Hello World'' ''Hello Mars'' uid now ct =
     Inr (Some \<lparr>op_type = ''replace'', line = 0, start_col = 6, end_col = 11,
            old_content = ''World'', new_content = ''Mars'',
            timestamp = takeWhile (\<lambda>c. c \<noteq> CHR 0x0A) (strncpy_field 32 ct), ts = now,
            user_id = strncpy_field 32 uid\<rparr>)"
  by (simp add: diff_line_def diff_start_def diff_ends_def prefix_loop.simps suffix_loop.simps
      substr_def make_update_def strncpy_field_def [of 256] strncpy_field_def [of 10]
      c_str_def Let_def)

text \<open>
  C8. \<open>detect_changes\<close> returns without error, and the operations it emits are, in
  order of the line index \<open>i\<close> from 0 to \<open>max(old_n, new_n) - 1\<close>, one operation for
  each index whose old and new line differ (a missing line counts as empty) and none for
  the others. The operation of a changed line has \<open>line = i\<close>, \<open>start_col = p\<close>,
  \<open>end_col = max(old_end, new_end)\<close>, and as \<open>old_content\<close> and \<open>new_content\<close> the segments
  \<open>old[p:old_end]\<close> and \<open>new[p:new_end]\<close> as \<open>strncpy\<close> leaves them in a 256-byte field:
  at most 255 bytes. Diffing \<open>Hello World\<close> against \<open>Hello Mars\<close> emits the one operation
  with line 0, columns 6 to 11, \<open>World\<close> and \<open>Mars\<close>.
\<close>

theorem detect_changes_emits:
  "detect_changes old_lines new_lines uid clock ctime_of =
     Inr (map (\<lambda>i. changed_line_update i (line_or_empty old_lines i) (line_or_empty new_lines i)
                  uid (clock i) (ctime_of (clock i)))
            (filter (\<lambda>i. line_or_empty old_lines i \<noteq> line_or_empty new_lines i)
               [0..max (int (length old_lines)) (int (length new_lines)) - 1])) \<and>
   line (changed_line_update i a b uid now ct) = i \<and>
   start_col (changed_line_update i a b uid now ct) = diff_start a b \<and>
   end_col (changed_line_update i a b uid now ct) =
     max (fst (diff_ends a b)) (snd (diff_ends a b)) \<and>
   old_content (changed_line_update i a b uid now ct) =
     strncpy_field 256
       (take (nat (fst (diff_ends a b) - diff_start a b)) (drop (nat (diff_start a b)) a)) \<and>
   new_content (changed_line_update i a b uid now ct) =
     strncpy_field 256
       (take (nat (snd (diff_ends a b) - diff_start a b)) (drop (nat (diff_start a b)) b)) \<and>
   length (old_content (changed_line_update i a b uid now ct)) \<le> 255 \<and>
   length (new_content (changed_line_update i a b uid now ct)) \<le> 255 \<and>
   detect_changes [''Hello World''] [''Hello Mars''] uid clock ctime_of =
     Inr [\<lparr>op_type = ''replace'', line = 0, start_col = 6, end_col = 11,
           old_content = ''World'', new_content = ''Mars'',
           timestamp = takeWhile (\<lambda>c. c \<noteq> CHR 0x0A) (strncpy_field 32 (ctime_of (clock 0))),
           ts = clock 0, user_id = strncpy_field 32 uid\<rparr>]"
proof -
  have whole: "detect_changes old_lines new_lines uid clock ctime_of =
     Inr (map (\<lambda>i. changed_line_update i (line_or_empty old_lines i) (line_or_empty new_lines i)
                  uid (clock i) (ctime_of (clock i)))
            (filter (\<lambda>i. line_or_empty old_lines i \<noteq> line_or_empty new_lines i)
               [0..max (int (length old_lines)) (int (length new_lines)) - 1]))"
    by (simp add: detect_changes_def detect_loop_eq)
  have fields: "line (changed_line_update i a b uid now ct) = i"
    "start_col (changed_line_update i a b uid now ct) = diff_start a b"
    "end_col (changed_line_update i a b uid now ct) =
       max (fst (diff_ends a b)) (snd (diff_ends a b))"
    "old_content (changed_line_update i a b uid now ct) =
       strncpy_field 256
         (take (nat (fst (diff_ends a b) - diff_start a b)) (drop (nat (diff_start a b)) a))"
    "new_content (changed_line_update i a b uid now ct) =
       strncpy_field 256
         (take (nat (snd (diff_ends a b) - diff_start a b)) (drop (nat (diff_start a b)) b))"
    by (simp_all add: changed_line_update_def make_update_def)
  have bound: "length (old_content (changed_line_update i a b uid now ct)) \<le> 255"
    "length (new_content (changed_line_update i a b uid now ct)) \<le> 255"
    using strncpy_field_length [of 256] by (simp_all add: fields)
  have hello: "detect_changes [''Hello World''] [''Hello Mars''] uid clock ctime_of =
     Inr [\<lparr>op_type = ''replace'', line = 0, start_col = 6, end_col = 11,
           old_content = ''World'', new_content = ''Mars'',
           timestamp = takeWhile (\<lambda>c. c \<noteq> CHR 0x0A) (strncpy_field 32 (ctime_of (clock 0))),
           ts = clock 0, user_id = strncpy_field 32 uid\<rparr>]"
    by (simp add: detect_changes_def detect_loop.simps line_or_empty_def hello_example)
  show ?thesis
    apply (intro conjI)
            apply (rule whole)
           apply (rule fields(1))
          apply (rule fields(2))
         apply (rule fields(3))
        apply (rule fields(4))
       apply (rule fields(5))
      apply (rule bound(1))
     apply (rule bound(2))
    apply (rule hello)
    done
qed

theorem detect_changes_emits_witness:
  "detect_changes [''same'', ''ac''] [''same'', ''abc'', ''new''] ''alice'' (\<lambda>i. 100) (\<lambda>t. ''Thu'') =
     Inr [\<lparr>op_type = ''replace'', line = 1, start_col = 1, end_col = 2,
           old_content = [], new_content = ''b'', timestamp = ''Thu'', ts = 100,
           user_id = ''alice''\<rparr>,
          \<lparr>op_type = ''replace'', line = 2, start_col = 0, end_col = 3,
           old_content = [], new_content = ''new'', timestamp = ''Thu'', ts = 100,
           user_id = ''alice''\<rparr>]"
proof -
  have u: "[0..2::int] = [0, 1, 2]" by (simp add: upto_rec1)
  have emitted: "detect_changes [''same'', ''ac''] [''same'', ''abc'', ''new''] ''alice''
        (\<lambda>i. 100) (\<lambda>t. ''Thu'') =
      Inr [changed_line_update 1 ''ac'' ''abc'' ''alice'' 100 ''Thu'',
           changed_line_update 2 [] ''new'' ''alice'' 100 ''Thu'']"
    using detect_changes_emits [THEN conjunct1,
      of "[''same'', ''ac'']" "[''same'', ''abc'', ''new'']" "''alice''" "\<lambda>i. 100" "\<lambda>t. ''Thu''"]
    by (simp add: line_or_empty_def u)
  have first: "changed_line_update 1 ''ac'' ''abc'' ''alice'' 100 ''Thu'' =
      \<lparr>op_type = ''replace'', line = 1, start_col = 1, end_col = 2,
           old_content = [], new_content = ''b'', timestamp = ''Thu'', ts = 100,
           user_id = ''alice''\<rparr>"
    by (simp add: changed_line_update_def diff_start_def diff_ends_def
      prefix_loop.simps suffix_loop.simps make_update_def strncpy_field_def c_str_def)
  have second: "changed_line_update 2 [] ''new'' ''alice'' 100 ''Thu'' =
      \<lparr>op_type = ''replace'', line = 2, start_col = 0, end_col = 3,
           old_content = [], new_content = ''new'', timestamp = ''Thu'', ts = 100,
           user_id = ''alice''\<rparr>"
    by (simp add: changed_line_update_def diff_start_def diff_ends_def
      prefix_loop.simps suffix_loop.simps make_update_def strncpy_field_def c_str_def)
  show ?thesis by (simp only: emitted first second)
qed

text \<open>
  C3, as the code has it. For two lines \<open>a \<noteq> b\<close> the loop body builds one operation. Its
  \<open>old_content\<close> and \<open>new_content\<close> are the segments \<open>a[p:old_end]\<close> and \<open>b[p:new_end]\<close>
  as \<open>strncpy\<close> leaves them in a 256-byte field (cut at 255 bytes and at a NUL byte), and
  replacing \<open>a[p:old_end]\<close> in \<open>a\<close> by \<open>b[p:new_end]\<close> gives \<open>b\<close>. So where the segment has at
  most 255 bytes and no NUL byte, \<open>old_content\<close> is \<open>a[p:old_end]\<close>, and replacing
  \<open>a[p:old_end]\<close> by \<open>new_content\<close> gives \<open>b\<close>. In the output of \<open>detect_changes\<close> the
  operations with \<open>line = i\<close>, for a changed line \<open>i\<close>, are exactly this one.
\<close>

theorem diff_line_single_hunk:
  assumes "a \<noteq> b"
  shows "diff_line i a b uid now ct = Inr (Some (changed_line_update i a b uid now ct)) \<and>
    old_content (changed_line_update i a b uid now ct) =
      strncpy_field 256
        (take (nat (fst (diff_ends a b) - diff_start a b)) (drop (nat (diff_start a b)) a)) \<and>
    new_content (changed_line_update i a b uid now ct) =
      strncpy_field 256
        (take (nat (snd (diff_ends a b) - diff_start a b)) (drop (nat (diff_start a b)) b)) \<and>
    take (nat (diff_start a b)) a @
      take (nat (snd (diff_ends a b) - diff_start a b)) (drop (nat (diff_start a b)) b) @
      drop (nat (fst (diff_ends a b))) a = b \<and>
    (length (take (nat (fst (diff_ends a b) - diff_start a b)) (drop (nat (diff_start a b)) a))
        \<le> 255 \<and>
     CHR 0x00 \<notin> set (take (nat (fst (diff_ends a b) - diff_start a b))
                       (drop (nat (diff_start a b)) a)) \<longrightarrow>
     old_content (changed_line_update i a b uid now ct) =
       take (nat (fst (diff_ends a b) - diff_start a b)) (drop (nat (diff_start a b)) a)) \<and>
    (length (take (nat (snd (diff_ends a b) - diff_start a b)) (drop (nat (diff_start a b)) b))
        \<le> 255 \<and>
     CHR 0x00 \<notin> set (take (nat (snd (diff_ends a b) - diff_start a b))
                       (drop (nat (diff_start a b)) b)) \<longrightarrow>
     take (nat (diff_start a b)) a @ new_content (changed_line_update i a b uid now ct) @
       drop (nat (fst (diff_ends a b))) a = b) \<and>
    (0 \<le> i \<and> i < max (int (length old_lines)) (int (length new_lines)) \<and>
     line_or_empty old_lines i = a \<and> line_or_empty new_lines i = b \<longrightarrow>
     (\<exists>emitted. detect_changes old_lines new_lines uid clock ctime_of = Inr emitted \<and>
        filter (\<lambda>u. line u = i) emitted =
          [changed_line_update i a b uid (clock i) (ctime_of (clock i))]))"
proof -
  let ?old = "take (nat (fst (diff_ends a b) - diff_start a b)) (drop (nat (diff_start a b)) a)"
  let ?new = "take (nat (snd (diff_ends a b) - diff_start a b)) (drop (nat (diff_start a b)) b)"
  let ?u = "changed_line_update i a b uid now ct"
  have one: "diff_line i a b uid now ct = Inr (Some ?u)"
    using assms by (simp add: diff_line_eq changed_line_update_def)
  have oc: "old_content ?u = strncpy_field 256 ?old"
    and nc: "new_content ?u = strncpy_field 256 ?new"
    by (simp_all add: changed_line_update_def make_update_def)
  have short_old: "length ?old \<le> 255 \<and> CHR 0x00 \<notin> set ?old \<longrightarrow> old_content ?u = ?old"
    using strncpy_field_id [of ?old 256] by (simp add: oc)
  have short_new: "length ?new \<le> 255 \<and> CHR 0x00 \<notin> set ?new \<longrightarrow>
      take (nat (diff_start a b)) a @ new_content ?u @ drop (nat (fst (diff_ends a b))) a = b"
    using strncpy_field_id [of ?new 256] diff_reconstruct [of a b] by (simp add: nc)
  have only: "0 \<le> i \<and> i < max (int (length old_lines)) (int (length new_lines)) \<and>
     line_or_empty old_lines i = a \<and> line_or_empty new_lines i = b \<longrightarrow>
     (\<exists>emitted. detect_changes old_lines new_lines uid clock ctime_of = Inr emitted \<and>
        filter (\<lambda>u. line u = i) emitted =
          [changed_line_update i a b uid (clock i) (ctime_of (clock i))])"
  proof (intro impI, elim conjE)
    let ?n = "max (int (length old_lines)) (int (length new_lines))"
    let ?P = "\<lambda>k. line_or_empty old_lines k \<noteq> line_or_empty new_lines k"
    let ?f = "\<lambda>k. changed_line_update k (line_or_empty old_lines k) (line_or_empty new_lines k)
                  uid (clock k) (ctime_of (clock k))"
    assume i: "0 \<le> i" "i < ?n" and ab: "line_or_empty old_lines i = a" "line_or_empty new_lines i = b"
    have l: "\<And>k. line (?f k) = k" by (simp add: changed_line_update_def make_update_def)
    have "filter (\<lambda>u. line u = i) (map ?f (filter ?P [0..?n - 1])) =
          map ?f (filter ?P (filter (\<lambda>k. k = i) [0..?n - 1]))"
      by (simp add: filter_map o_def l conj_commute)
    also have "\<dots> = [?f i]"
      using i ab assms filter_eq_upto [of 0 i "?n - 1"] by simp
    finally show "\<exists>emitted. detect_changes old_lines new_lines uid clock ctime_of = Inr emitted \<and>
        filter (\<lambda>u. line u = i) emitted =
          [changed_line_update i a b uid (clock i) (ctime_of (clock i))]"
      using ab by (simp add: detect_changes_def detect_loop_eq)
  qed
  show ?thesis
    apply (intro conjI)
          apply (rule one)
         apply (rule oc)
        apply (rule nc)
       apply (rule diff_reconstruct)
      apply (rule short_old)
     apply (rule short_new)
    apply (rule only)
    done
qed

theorem diff_line_single_hunk_witness:
  "diff_line 0 ''ac'' ''abc'' ''alice'' 100 ''Thu'' =
     Inr (Some \<lparr>op_type = ''replace'', line = 0, start_col = 1, end_col = 2,
            old_content = [], new_content = ''b'', timestamp = ''Thu'', ts = 100,
            user_id = ''alice''\<rparr>) \<and>
   take 1 ''ac'' @ ''b'' @ drop 1 ''ac'' = ''abc''"
proof -
  have ne: "''ac'' \<noteq> ''abc''" by simp
  have ev: "changed_line_update 0 ''ac'' ''abc'' ''alice'' 100 ''Thu'' =
      \<lparr>op_type = ''replace'', line = 0, start_col = 1, end_col = 2,
            old_content = [], new_content = ''b'', timestamp = ''Thu'', ts = 100,
            user_id = ''alice''\<rparr>"
    by (simp add: changed_line_update_def diff_start_def diff_ends_def
      prefix_loop.simps suffix_loop.simps make_update_def strncpy_field_def c_str_def)
  have "diff_line 0 ''ac'' ''abc'' ''alice'' 100 ''Thu'' =
      Inr (Some (changed_line_update 0 ''ac'' ''abc'' ''alice'' 100 ''Thu''))"
    using diff_line_single_hunk [OF ne] by blast
  then show ?thesis by (simp add: ev)
qed

text \<open>
  The claim as the specification states it fails on a long change: from the empty line to
  a line of 256 bytes the operation carries 255 bytes, so replacing the (empty) old
  segment by \<open>new_content\<close> does not give the new line.
\<close>

theorem diff_line_truncates:
  "diff_line 0 [] (replicate 256 (CHR ''x'')) ''alice'' 100 [] =
     Inr (Some \<lparr>op_type = ''replace'', line = 0, start_col = 0, end_col = 256,
            old_content = [], new_content = replicate 255 (CHR ''x''),
            timestamp = [], ts = 100, user_id = ''alice''\<rparr>) \<and>
   take 0 [] @ replicate 255 (CHR ''x'') @ drop 0 [] \<noteq> replicate 256 (CHR ''x'')"
proof -
  have "replicate 255 (CHR ''x'') \<noteq> replicate 256 (CHR ''x'')"
    by (simp add: replicate_eq_replicate)
  then show ?thesis
    by (simp add: diff_line_def diff_start_def diff_ends_def prefix_loop.simps suffix_loop.simps
        substr_def make_update_def strncpy_field_def c_str_def Let_def)
qed

section \<open>Replay: the merged document in closed form\<close>

lemma extend_doc_eq: "extend_doc doc m = doc @ replicate (nat (m + 1) - length doc) []"
proof (induction doc m rule: extend_doc.induct)
  case (1 doc m)
  show ?case
  proof (cases "int (length doc) \<le> m")
    case True
    have "nat (m + 1) - length doc = Suc (nat (m + 1) - length (doc @ [[]]))"
      using True by simp
    then have "doc @ replicate (nat (m + 1) - length doc) [] =
          (doc @ [[]]) @ replicate (nat (m + 1) - length (doc @ [[]])) []"
      by (simp only: replicate_Suc append_assoc append_Cons append_Nil)
    then show ?thesis using True "1.IH" [OF True]
      by (subst extend_doc.simps) simp
  next
    case False
    then have "nat (m + 1) - length doc = 0" by linarith
    then show ?thesis using False by (subst extend_doc.simps) simp
  qed
qed

lemma max_line_loop_bounds:
  "m \<le> max_line_loop us m \<and> (\<forall>u\<in>set us. line u \<le> max_line_loop us m) \<and>
   (max_line_loop us m = m \<or> max_line_loop us m \<in> line ` set us)"
proof (induction us arbitrary: m)
  case Nil
  then show ?case by simp
next
  case (Cons u us)
  show ?case using Cons.IH [of "if line u > m then line u else m"]
    by (auto split: if_splits)
qed

lemma apply_op_spliced: "apply_op base u = Inr (spliced base u)"
  by (simp add: apply_op_eq spliced_def)

lemma apply_ops_eq: "apply_ops base us = Inr (foldl spliced base us)"
  by (induction us arbitrary: base) (simp_all add: apply_op_spliced)

lemma replay_eq:
  "distinct (map fst groups) \<Longrightarrow> \<forall>g\<in>set groups. 0 \<le> fst g \<and> fst g < int (length doc) \<Longrightarrow>
   replay groups doc =
     Inr (map (\<lambda>i. case map_of groups (int i) of None \<Rightarrow> doc ! i
                    | Some ops \<Rightarrow> replayed_line (doc ! i) ops) [0..<length doc])"
proof (induction groups arbitrary: doc)
  case Nil
  then show ?case by (simp add: map_nth)
next
  case (Cons g groups)
  obtain l ops where g: "g = (l, ops)" by (cases g)
  let ?doc1 = "doc[nat l := replayed_line (doc ! nat l) ops]"
  have l: "0 \<le> l" "l < int (length doc)" using Cons.prems(2) g by auto
  have notin: "map_of groups l = None"
    using Cons.prems(1) g by (simp add: map_of_eq_None_iff)
  have ih: "replay groups ?doc1 =
     Inr (map (\<lambda>i. case map_of groups (int i) of None \<Rightarrow> ?doc1 ! i
                    | Some ops' \<Rightarrow> replayed_line (?doc1 ! i) ops') [0..<length ?doc1])"
    using Cons.IH [of ?doc1] Cons.prems by simp
  have step: "replay (g # groups) doc = replay groups ?doc1"
    using l by (simp add: g apply_ops_eq replayed_line_def)
  have "map (\<lambda>i. case map_of groups (int i) of None \<Rightarrow> ?doc1 ! i
                    | Some ops' \<Rightarrow> replayed_line (?doc1 ! i) ops') [0..<length ?doc1] =
        map (\<lambda>i. case map_of (g # groups) (int i) of None \<Rightarrow> doc ! i
                    | Some ops' \<Rightarrow> replayed_line (doc ! i) ops') [0..<length doc]"
  proof (rule nth_equalityI)
    show "length (map (\<lambda>i. case map_of groups (int i) of None \<Rightarrow> ?doc1 ! i
                    | Some ops' \<Rightarrow> replayed_line (?doc1 ! i) ops') [0..<length ?doc1]) =
        length (map (\<lambda>i. case map_of (g # groups) (int i) of None \<Rightarrow> doc ! i
                    | Some ops' \<Rightarrow> replayed_line (doc ! i) ops') [0..<length doc])"
      by simp
  next
    fix i
    assume "i < length (map (\<lambda>i. case map_of groups (int i) of None \<Rightarrow> ?doc1 ! i
                    | Some ops' \<Rightarrow> replayed_line (?doc1 ! i) ops') [0..<length ?doc1])"
    then have i: "i < length doc" by simp
    show "map (\<lambda>i. case map_of groups (int i) of None \<Rightarrow> ?doc1 ! i
                    | Some ops' \<Rightarrow> replayed_line (?doc1 ! i) ops') [0..<length ?doc1] ! i =
        map (\<lambda>i. case map_of (g # groups) (int i) of None \<Rightarrow> doc ! i
                    | Some ops' \<Rightarrow> replayed_line (doc ! i) ops') [0..<length doc] ! i"
    proof (cases "int i = l")
      case True
      then have "nat l = i" by simp
      then show ?thesis using i True notin by (simp add: g cong: option.case_cong)
    next
      case False
      then have "nat l \<noteq> i" using l by linarith
      then show ?thesis using i False by (simp add: g cong: option.case_cong)
    qed
  qed
  then show ?case using step ih by simp
qed


lemma push_by_line_keys:
  "map fst (push_by_line l u m) = (if l \<in> fst ` set m then map fst m else map fst m @ [l])"
  by (induction m) (auto split: if_splits)

lemma map_of_push_by_line:
  "map_of (push_by_line l u m) k =
     (if k = l then Some ((case map_of m l of None \<Rightarrow> [] | Some g \<Rightarrow> g) @ [u]) else map_of m k)"
  by (induction m) auto

lemma group_by_line_distinct:
  "distinct (map fst m) \<Longrightarrow> distinct (map fst (group_by_line us m))"
proof (induction us arbitrary: m)
  case Nil
  then show ?case by simp
next
  case (Cons u us)
  have "distinct (map fst (push_by_line (line u) u m))"
    using Cons.prems by (auto simp: push_by_line_keys)
  then show ?case using Cons.IH by simp
qed

lemma map_of_group_by_line:
  "map_of (group_by_line us m) k =
     (if filter (\<lambda>u. line u = k) us = [] then map_of m k
      else Some ((case map_of m k of None \<Rightarrow> [] | Some g \<Rightarrow> g) @ filter (\<lambda>u. line u = k) us))"
proof (induction us arbitrary: m)
  case Nil
  then show ?case by simp
next
  case (Cons u us)
  show ?case
    by (simp add: Cons.IH map_of_push_by_line split: option.splits)
qed

lemma group_by_line_keys:
  "fst ` set (group_by_line us m) = fst ` set m \<union> line ` set us"
proof (induction us arbitrary: m)
  case Nil
  then show ?case by simp
next
  case (Cons u us)
  have "fst ` set (push_by_line (line u) u m) = insert (line u) (fst ` set m)"
    using push_by_line_keys [of "line u" u m] 
    by (metis (no_types, lifting) insert_absorb list.set_map set_append list.simps(15) Un_insert_right sup_bot.right_neutral empty_set)
  then show ?case using Cons.IH by auto
qed

lemma survivors_subset: "set (survivors all_ops) \<subseteq> set all_ops"
  by (auto simp: survivors_def dest: set_zip_leftD)

lemma merge_lines_eq:
  assumes "\<forall>u\<in>set (survivors all_ops). 0 \<le> line u"
  shows "merge_lines all_ops doc =
     Inr (map (\<lambda>i. replayed_line (extend_doc doc (max_line_loop all_ops (- 1)) ! i)
                    (filter (\<lambda>u. line u = int i) (survivors all_ops)))
            [0..<length (extend_doc doc (max_line_loop all_ops (- 1)))])"
proof -
  let ?ext = "extend_doc doc (max_line_loop all_ops (- 1))"
  let ?groups = "group_by_line (survivors all_ops) []"
  have d: "distinct (map fst ?groups)" by (simp add: group_by_line_distinct)
  have len: "int (length ?ext) > max_line_loop all_ops (- 1)"
    by (simp add: extend_doc_eq)
  have keys: "\<forall>g\<in>set ?groups. 0 \<le> fst g \<and> fst g < int (length ?ext)"
  proof
    fix g assume "g \<in> set ?groups"
    then have "fst g \<in> line ` set (survivors all_ops)"
      using group_by_line_keys [of "survivors all_ops" "[]"] by auto
    then obtain u where u: "u \<in> set (survivors all_ops)" "fst g = line u" by auto
    then have "line u \<le> max_line_loop all_ops (- 1)"
      using survivors_subset max_line_loop_bounds [of "- 1" all_ops] by blast
    then show "0 \<le> fst g \<and> fst g < int (length ?ext)"
      using u assms len by auto
  qed
  have m: "\<And>i. (case map_of ?groups (int i) of None \<Rightarrow> ?ext ! i
                    | Some ops \<Rightarrow> replayed_line (?ext ! i) ops) =
           replayed_line (?ext ! i) (filter (\<lambda>u. line u = int i) (survivors all_ops))"
    by (simp add: map_of_group_by_line replayed_line_def sort_by_start_desc_def)
  show ?thesis
    unfolding merge_lines_def replay_eq [OF d keys] by (simp add: m)
qed

text \<open>
  The order in which the \<open>unordered_map\<close> is iterated is not specified. It does not
  matter: each iteration touches only its own line.
\<close>

lemma replay_any_order:
  assumes "distinct (map fst groups)" and "distinct (map fst groups')"
    and "set groups' = set groups"
    and "\<forall>g\<in>set groups. 0 \<le> fst g \<and> fst g < int (length doc)"
  shows "replay groups' doc = replay groups doc"
proof -
  have "map_of groups' = map_of groups"
    using assms(1,2,3) by (simp add: map_of_inject_set)
  moreover have "\<forall>g\<in>set groups'. 0 \<le> fst g \<and> fst g < int (length doc)"
    using assms(3,4) by simp
  ultimately show ?thesis
    using replay_eq [OF assms(1,4)] replay_eq [OF assms(2), of doc] by simp
qed

section \<open>Conflict resolution: the flags after the loops\<close>

lemma strcmp_antisym: "strcmp b a = - strcmp a b"
proof (induction a b rule: strcmp.induct)
  case (4 x xs y ys)
  show ?case
  proof (cases "x = y")
    case True
    then show ?thesis using 4 by simp
  next
    case False
    then have "(of_char x :: nat) \<noteq> of_char y" by simp
    then show ?thesis using False by auto
  qed
qed simp_all

lemma strcmp_refl: "strcmp a a = 0"
  by (induction a) simp_all

lemma conflict_sym: "conflict a b = conflict b a"
  by (auto simp: conflict_def ranges_overlap_def)

lemma beats_irrefl: "\<not> beats x x"
  by (simp add: beats_def strcmp_refl)

lemma inner_loop_length: "length (inner_loop all_ops i j keep) = length keep"
proof (induction all_ops i j keep rule: inner_loop.induct)
  case (1 all_ops i j keep)
  show ?case using 1 by (subst inner_loop.simps) auto
qed

lemma outer_loop_length: "length (outer_loop all_ops i keep) = length keep"
proof (induction all_ops i keep rule: outer_loop.induct)
  case (1 all_ops i keep)
  show ?case using 1 by (subst outer_loop.simps) (auto simp: inner_loop_length)
qed

lemma resolve_conflicts_length: "length (resolve_conflicts all_ops) = length all_ops"
  by (simp add: resolve_conflicts_def outer_loop_length)

lemma nth_update_False: "xs[i := False] ! k \<Longrightarrow> xs ! k"
  by (cases "i = k"; cases "i < length xs") (auto simp: list_update_beyond)

lemma inner_loop_mono:
  "k < length keep \<Longrightarrow> inner_loop all_ops i j keep ! k \<Longrightarrow> keep ! k"
proof (induction all_ops i j keep rule: inner_loop.induct)
  case (1 all_ops i j keep)
  from "1.prems"(2) show ?case
    apply (subst (asm) inner_loop.simps)
    using "1.IH" "1.prems"(1)
    by (auto split: if_splits dest: nth_update_False)
qed

lemma outer_loop_mono:
  "k < length keep \<Longrightarrow> outer_loop all_ops i keep ! k \<Longrightarrow> keep ! k"
proof (induction all_ops i keep rule: outer_loop.induct)
  case (1 all_ops i keep)
  from "1.prems"(2) show ?case
    apply (subst (asm) outer_loop.simps)
    using "1.IH" "1.prems"(1) inner_loop_mono [of k keep all_ops i "i + 1"]
    by (auto split: if_splits simp: inner_loop_length)
qed

lemma inner_loop_keeps_dominant:
  assumes "length keep = length all_ops" and "d < length all_ops" and "keep ! d"
    and "i < j" and "i < length all_ops"
    and "\<forall>k<length all_ops. k \<noteq> d \<longrightarrow> conflict (all_ops ! k) (all_ops ! d) \<longrightarrow>
           beats (all_ops ! d) (all_ops ! k)"
  shows "inner_loop all_ops i j keep ! d"
  using assms
proof (induction all_ops i j keep rule: inner_loop.induct)
  case (1 all_ops i j keep)
  show ?case
  proof (cases "j < length all_ops")
    case False
    then show ?thesis using "1.prems"(3) by (subst inner_loop.simps) simp
  next
    case j: True
    have dom: "\<And>k. k < length all_ops \<Longrightarrow> k \<noteq> d \<Longrightarrow> conflict (all_ops ! k) (all_ops ! d) \<Longrightarrow>
           beats (all_ops ! d) (all_ops ! k)"
      using "1.prems"(6) by blast
    have ij: "i < j + 1" using "1.prems"(4) by simp
    show ?thesis
    proof (cases "keep ! j")
      case False
      then show ?thesis
        using j "1.IH"(1) [OF j _ "1.prems"(1,2,3) ij "1.prems"(5,6)]
        by (subst inner_loop.simps) simp
    next
      case kj: True
      show ?thesis
      proof (cases "conflict (all_ops ! i) (all_ops ! j)")
        case False
        then show ?thesis
          using j kj "1.IH"(4) [OF j _ _ "1.prems"(1,2,3) ij "1.prems"(5,6)]
          by (subst inner_loop.simps) simp
      next
        case c: True
        have jd: "j = d \<Longrightarrow> beats (all_ops ! j) (all_ops ! i)"
          using dom [of i] c "1.prems"(4,5) by auto
        have id: "i = d \<Longrightarrow> beats (all_ops ! i) (all_ops ! j)"
          using dom [of j] c j "1.prems"(4) by (auto simp: conflict_sym)
        let ?wins = "ts (all_ops ! i) > ts (all_ops ! j) \<or>
             (ts (all_ops ! i) = ts (all_ops ! j) \<and>
              strcmp (user_id (all_ops ! i)) (user_id (all_ops ! j)) \<le> 0)"
        show ?thesis
        proof (cases ?wins)
          case True
          then have jnd: "j \<noteq> d"
            using jd strcmp_antisym [of "user_id (all_ops ! i)" "user_id (all_ops ! j)"]
            by (auto simp: beats_def)
          have len: "length (keep[j := False]) = length all_ops" using "1.prems"(1) by simp
          have kd: "keep[j := False] ! d" using jnd "1.prems"(3) by simp
          have r: "inner_loop all_ops i j keep = inner_loop all_ops i (j + 1) (keep[j := False])"
            using j kj c True by (subst inner_loop.simps) auto
          show ?thesis
          proof (cases "ts (all_ops ! i) > ts (all_ops ! j)")
            case gt: True
            show ?thesis unfolding r
              using "1.IH"(2) [OF j _ c gt len "1.prems"(2) kd ij "1.prems"(5,6)] kj by simp
          next
            case ngt: False
            then have eq: "\<not> ts (all_ops ! i) < ts (all_ops ! j)"
              and le: "strcmp (user_id (all_ops ! i)) (user_id (all_ops ! j)) \<le> 0"
              using True by auto
            show ?thesis unfolding r
              using "1.IH"(3) [OF j _ c ngt eq le len "1.prems"(2) kd ij "1.prems"(5,6)] kj
              by simp
          qed
        next
          case False
          then have ind: "i \<noteq> d"
            using id by (auto simp: beats_def)
          have r: "inner_loop all_ops i j keep = keep[i := False]"
            using j kj c False by (subst inner_loop.simps) auto
          show ?thesis unfolding r using ind "1.prems"(3) by simp
        qed
      qed
    qed
  qed
qed


lemma outer_loop_keeps_dominant:
  assumes "length keep = length all_ops" and "d < length all_ops" and "keep ! d"
    and "\<forall>k<length all_ops. k \<noteq> d \<longrightarrow> conflict (all_ops ! k) (all_ops ! d) \<longrightarrow>
           beats (all_ops ! d) (all_ops ! k)"
  shows "outer_loop all_ops i keep ! d"
  using assms
proof (induction all_ops i keep rule: outer_loop.induct)
  case (1 all_ops i keep)
  show ?case
  proof (cases "i < length all_ops")
    case False
    then show ?thesis using "1.prems"(3) by (subst outer_loop.simps) simp
  next
    case i: True
    show ?thesis
    proof (cases "keep ! i")
      case False
      then show ?thesis
        using i "1.IH"(1) [OF i _ "1.prems"] by (subst outer_loop.simps) simp
    next
      case ki: True
      let ?keep1 = "inner_loop all_ops i (i + 1) keep"
      have len: "length ?keep1 = length all_ops"
        using "1.prems"(1) by (simp add: inner_loop_length)
      have kd: "?keep1 ! d"
        using inner_loop_keeps_dominant [OF "1.prems"(1,2,3) _ i "1.prems"(4), of "i + 1"] by simp
      show ?thesis
        using i ki "1.IH"(2) [OF i _ len "1.prems"(2) kd "1.prems"(4)]
        by (subst outer_loop.simps) simp
    qed
  qed
qed

lemma inner_loop_post:
  assumes "length keep = length all_ops" and "i < j" and "i < length all_ops"
    and "inner_loop all_ops i j keep ! i" and "j \<le> b" and "b < length all_ops"
    and "inner_loop all_ops i j keep ! b"
  shows "\<not> conflict (all_ops ! i) (all_ops ! b)"
  using assms
proof (induction all_ops i j keep rule: inner_loop.induct)
  case (1 all_ops i j keep)
  have j: "j < length all_ops" using "1.prems"(5,6) by simp
  have ij: "i < j + 1" using "1.prems"(2) by simp
  have ib: "i \<noteq> b" using "1.prems"(2,5) by simp
  show ?case
  proof (cases "keep ! j")
    case False
    then have r: "inner_loop all_ops i j keep = inner_loop all_ops i (j + 1) keep"
      using j by (subst inner_loop.simps) simp
    have "b \<noteq> j"
      using False "1.prems"(7) inner_loop_mono [of j keep all_ops i "j + 1"] j "1.prems"(1)
      unfolding r by auto
    then have jb: "j + 1 \<le> b" using "1.prems"(5) by simp
    show ?thesis
      using "1.IH"(1) [OF j _ "1.prems"(1) ij "1.prems"(3) _ jb "1.prems"(6)] "1.prems"(4,7) False
      unfolding r by simp
  next
    case kj: True
    show ?thesis
    proof (cases "conflict (all_ops ! i) (all_ops ! j)")
      case False
      then have r: "inner_loop all_ops i j keep = inner_loop all_ops i (j + 1) keep"
        using j kj by (subst inner_loop.simps) simp
      show ?thesis
      proof (cases "b = j")
        case True
        then show ?thesis using False by simp
      next
        case bj: False
        then have jb: "j + 1 \<le> b" using "1.prems"(5) by simp
        show ?thesis
          using "1.IH"(4) [OF j _ _ "1.prems"(1) ij "1.prems"(3) _ jb "1.prems"(6)]
            "1.prems"(4,7) kj False
          unfolding r by simp
      qed
    next
      case c: True
      let ?wins = "ts (all_ops ! i) > ts (all_ops ! j) \<or>
             (ts (all_ops ! i) = ts (all_ops ! j) \<and>
              strcmp (user_id (all_ops ! i)) (user_id (all_ops ! j)) \<le> 0)"
      show ?thesis
      proof (cases ?wins)
        case False
        then have r: "inner_loop all_ops i j keep = keep[i := False]"
          using j kj c by (subst inner_loop.simps) auto
        have "\<not> keep[i := False] ! i" using "1.prems"(1,3) by simp
        then show ?thesis using "1.prems"(4) unfolding r by simp
      next
        case True
        then have r: "inner_loop all_ops i j keep = inner_loop all_ops i (j + 1) (keep[j := False])"
          using j kj c by (subst inner_loop.simps) auto
        have len: "length (keep[j := False]) = length all_ops" using "1.prems"(1) by simp
        have nj: "\<not> inner_loop all_ops i (j + 1) (keep[j := False]) ! j"
          using inner_loop_mono [of j "keep[j := False]" all_ops i "j + 1"] j "1.prems"(1)
          by auto
        then have "b \<noteq> j" using "1.prems"(7) unfolding r by auto
        then have jb: "j + 1 \<le> b" using "1.prems"(5) by simp
        show ?thesis
        proof (cases "ts (all_ops ! i) > ts (all_ops ! j)")
          case gt: True
          show ?thesis
            using "1.IH"(2) [OF j _ c gt len ij "1.prems"(3) _ jb "1.prems"(6)]
              "1.prems"(4,7) kj
            unfolding r by simp
        next
          case ngt: False
          then have eq: "\<not> ts (all_ops ! i) < ts (all_ops ! j)"
            and le: "strcmp (user_id (all_ops ! i)) (user_id (all_ops ! j)) \<le> 0"
            using True by auto
          show ?thesis
            using "1.IH"(3) [OF j _ c ngt eq le len ij "1.prems"(3) _ jb "1.prems"(6)]
              "1.prems"(4,7) kj
            unfolding r by simp
        qed
      qed
    qed
  qed
qed

lemma outer_loop_post:
  assumes "length keep = length all_ops"
    and "\<forall>a<i. \<forall>b. a < b \<and> b < length all_ops \<and> keep ! a \<and> keep ! b \<longrightarrow>
           \<not> conflict (all_ops ! a) (all_ops ! b)"
    and "a < b" and "b < length all_ops"
    and "outer_loop all_ops i keep ! a" and "outer_loop all_ops i keep ! b"
  shows "\<not> conflict (all_ops ! a) (all_ops ! b)"
  using assms
proof (induction all_ops i keep rule: outer_loop.induct)
  case (1 all_ops i keep)
  show ?case
  proof (cases "i < length all_ops")
    case False
    then have r: "outer_loop all_ops i keep = keep" by (subst outer_loop.simps) simp
    have "a < i" using False "1.prems"(3,4) by simp
    then show ?thesis using "1.prems"(2,3,4,5,6) unfolding r by blast
  next
    case i: True
    show ?thesis
    proof (cases "keep ! i")
      case False
      then have r: "outer_loop all_ops i keep = outer_loop all_ops (i + 1) keep"
        using i by (subst outer_loop.simps) simp
      have inv: "\<forall>a<i + 1. \<forall>b. a < b \<and> b < length all_ops \<and> keep ! a \<and> keep ! b \<longrightarrow>
           \<not> conflict (all_ops ! a) (all_ops ! b)"
        using "1.prems"(2) False by (auto simp: less_Suc_eq)
      show ?thesis
        using "1.IH"(1) [OF i _ "1.prems"(1) inv "1.prems"(3,4)] "1.prems"(5,6) False
        unfolding r by simp
    next
      case ki: True
      let ?keep1 = "inner_loop all_ops i (i + 1) keep"
      have r: "outer_loop all_ops i keep = outer_loop all_ops (i + 1) ?keep1"
        using i ki by (subst outer_loop.simps) simp
      have len: "length ?keep1 = length all_ops"
        using "1.prems"(1) by (simp add: inner_loop_length)
      have inv: "\<forall>a<i + 1. \<forall>b. a < b \<and> b < length all_ops \<and> ?keep1 ! a \<and> ?keep1 ! b \<longrightarrow>
           \<not> conflict (all_ops ! a) (all_ops ! b)"
      proof (intro allI impI, elim conjE)
        fix a' b'
        assume a': "a' < i + 1" and ab: "a' < b'" and b': "b' < length all_ops"
          and ka: "?keep1 ! a'" and kb: "?keep1 ! b'"
        show "\<not> conflict (all_ops ! a') (all_ops ! b')"
        proof (cases "a' = i")
          case True
          show ?thesis
            using inner_loop_post [OF "1.prems"(1) _ i _ _ b', of "i + 1"] ka kb ab True
            by simp
        next
          case False
          then have "a' < i" using a' by simp
          moreover have "keep ! a'" "keep ! b'"
            using ka kb inner_loop_mono [of _ keep all_ops i "i + 1"] "1.prems"(1) ab b'
            by auto
          ultimately show ?thesis using "1.prems"(2) ab b' by blast
        qed
      qed
      show ?thesis
        using "1.IH"(2) [OF i _ len inv "1.prems"(3,4)] "1.prems"(5,6) ki
        unfolding r by simp
    qed
  qed
qed

lemma resolve_conflicts_pairwise:
  assumes "a < length all_ops" and "b < length all_ops" and "a \<noteq> b"
    and "resolve_conflicts all_ops ! a" and "resolve_conflicts all_ops ! b"
  shows "\<not> conflict (all_ops ! a) (all_ops ! b)"
proof -
  have ord: "\<And>x y. x < y \<Longrightarrow> y < length all_ops \<Longrightarrow> resolve_conflicts all_ops ! x \<Longrightarrow>
      resolve_conflicts all_ops ! y \<Longrightarrow> \<not> conflict (all_ops ! x) (all_ops ! y)"
    unfolding resolve_conflicts_def
    by (rule outer_loop_post [of "replicate (length all_ops) True" all_ops 0]) simp_all
  show ?thesis
  proof (cases "a < b")
    case True
    then show ?thesis using ord assms by blast
  next
    case False
    then have "b < a" using assms(3) by simp
    then show ?thesis using ord [of b a] assms by (simp add: conflict_sym)
  qed
qed

lemma resolve_conflicts_dominant:
  assumes "d < length all_ops"
    and "\<forall>k<length all_ops. k \<noteq> d \<longrightarrow> conflict (all_ops ! k) (all_ops ! d) \<longrightarrow>
           beats (all_ops ! d) (all_ops ! k)"
  shows "resolve_conflicts all_ops ! d"
  unfolding resolve_conflicts_def
  by (rule outer_loop_keeps_dominant) (use assms in simp_all)

lemma survivors_iff:
  "x \<in> set (survivors all_ops) \<longleftrightarrow>
     (\<exists>k<length all_ops. all_ops ! k = x \<and> resolve_conflicts all_ops ! k)"
proof -
  have "length (resolve_conflicts all_ops) = length all_ops"
    by (rule resolve_conflicts_length)
  then show ?thesis
    by (force simp: survivors_def set_zip)
qed

section \<open>Merge: what the document keeps\<close>




lemma merge_lines_total:
  assumes "\<forall>u\<in>set all_ops. 0 \<le> line u"
  shows "\<exists>doc'. merge_lines all_ops doc = Inr doc'"
proof -
  have "\<forall>u\<in>set (survivors all_ops). 0 \<le> line u"
    using assms survivors_subset by blast
  then show ?thesis using merge_lines_eq by blast
qed

lemmas merge_eval = merge_lines_def survivors_def resolve_conflicts_def conflict_def
  ranges_overlap_def sort_by_start_desc_def apply_op_def clamp_col_def substr_def substr_from_def
  inner_loop.simps outer_loop.simps extend_doc.simps

text \<open>A negative line index is an access outside the document.\<close>

lemma negative_line_is_out_of_bounds:
  "merge_lines
     [\<lparr>op_type = ''replace'', line = - 1, start_col = 0, end_col = 1, old_content = ''a'',
        new_content = ''X'', timestamp = [], ts = 100, user_id = ''alice''\<rparr>]
     [''abc''] = Inl LineIndexOutOfBounds"
  by (simp add: merge_eval)



text \<open>
  C7. Whatever the start and end columns of an operation are, the two columns used are
  inside the current line (between 0 and its length), \<open>apply_op\<close> returns the line with
  the segment between them replaced, and neither a single operation nor a whole group
  ends in the exception of \<open>substr\<close>. So the merge of a batch never fails on a column;
  with line indices that are not negative it returns a document.
\<close>

theorem replay_clamps_columns:
  "0 \<le> clamp_col base (start_col u) \<and> clamp_col base (start_col u) \<le> int (length base) \<and>
   0 \<le> clamp_col base (end_col u) \<and> clamp_col base (end_col u) \<le> int (length base) \<and>
   apply_op base u =
     Inr (take (nat (clamp_col base (start_col u))) base @ new_content u @
          drop (nat (clamp_col base (end_col u))) base) \<and>
   (\<exists>s. apply_ops base us = Inr s) \<and>
   merge_lines all_ops doc \<noteq> Inl SubstrOutOfRange \<and>
   ((\<forall>u\<in>set all_ops. 0 \<le> line u) \<longrightarrow> (\<exists>doc'. merge_lines all_ops doc = Inr doc'))"
  using clamp_col_bounds [of base "start_col u"] clamp_col_bounds [of base "end_col u"]
    apply_op_eq [of base u] apply_ops_total [of base us]
    replay_no_substr_error merge_lines_total [of all_ops doc]
  by (simp add: merge_lines_def)

theorem replay_clamps_columns_witness:
  "clamp_col ''abc'' (- 3) = 0 \<and> clamp_col ''abc'' 99 = 3 \<and>
   apply_op ''abc''
     \<lparr>op_type = ''replace'', line = 0, start_col = - 3, end_col = 99, old_content = [],
       new_content = ''X'', timestamp = [], ts = 100, user_id = ''alice''\<rparr> = Inr ''X''"
  using replay_clamps_columns [of "''abc''"
      "\<lparr>op_type = ''replace'', line = 0, start_col = - 3, end_col = 99, old_content = [],
        new_content = ''X'', timestamp = [], ts = 100, user_id = ''alice''\<rparr>" "[]" "[]" "[]"]
  by (simp add: clamp_col_def)

section \<open>Merge: the order of the batch\<close>

text \<open>
  C2. The merge is not invariant under reordering of the batch. Three operations on
  line 0 of \<open>abcdef\<close>: A on columns 0 to 2 at time 1, B on columns 1 to 4 at time 2, C on
  columns 3 to 5 at time 3. A and C do not overlap; B overlaps both. In the order A, B, C
  the loop discards A against B and then B against C, and only C is applied. In the
  order C, B, A the loop discards B against C, never compares A with the discarded B,
  and applies both C and A.
\<close>

theorem merge_depends_on_batch_order:
  "merge_lines
     [\<lparr>op_type = ''replace'', line = 0, start_col = 0, end_col = 2, old_content = ''ab'',
        new_content = ''A'', timestamp = [], ts = 1, user_id = ''alice''\<rparr>,
      \<lparr>op_type = ''replace'', line = 0, start_col = 1, end_col = 4, old_content = ''bcd'',
        new_content = ''B'', timestamp = [], ts = 2, user_id = ''bob''\<rparr>,
      \<lparr>op_type = ''replace'', line = 0, start_col = 3, end_col = 5, old_content = ''de'',
        new_content = ''C'', timestamp = [], ts = 3, user_id = ''carol''\<rparr>]
     [''abcdef''] = Inr [''abcCf''] \<and>
   merge_lines
     [\<lparr>op_type = ''replace'', line = 0, start_col = 3, end_col = 5, old_content = ''de'',
        new_content = ''C'', timestamp = [], ts = 3, user_id = ''carol''\<rparr>,
      \<lparr>op_type = ''replace'', line = 0, start_col = 1, end_col = 4, old_content = ''bcd'',
        new_content = ''B'', timestamp = [], ts = 2, user_id = ''bob''\<rparr>,
      \<lparr>op_type = ''replace'', line = 0, start_col = 0, end_col = 2, old_content = ''ab'',
        new_content = ''A'', timestamp = [], ts = 1, user_id = ''alice''\<rparr>]
     [''abcdef''] = Inr [''AcCf'']"
  by (simp add: merge_eval)

section \<open>Conflict resolution: the winner of a conflict\<close>

lemma two_ops_resolve:
  assumes "conflict x y" and "beats y x"
  shows "resolve_conflicts [x, y] = [False, True]" and "resolve_conflicts [y, x] = [True, False]"
proof -
  have yx: "conflict y x" using assms(1) by (simp add: conflict_sym)
  have s: "strcmp (user_id y) (user_id x) < 0 \<Longrightarrow> \<not> strcmp (user_id x) (user_id y) \<le> 0"
    using strcmp_antisym [of "user_id x" "user_id y"] by simp
  show "resolve_conflicts [x, y] = [False, True]"
    using assms s by (auto simp: resolve_conflicts_def outer_loop.simps inner_loop.simps beats_def)
  show "resolve_conflicts [y, x] = [True, False]"
    using assms yx by (auto simp: resolve_conflicts_def outer_loop.simps inner_loop.simps beats_def)
qed

lemma one_op_resolve: "resolve_conflicts [y] = [True]"
  by (simp add: resolve_conflicts_def outer_loop.simps inner_loop.simps)

lemma two_ops_merge:
  assumes "conflict x y" and "beats y x"
  shows "merge_lines [x, y] doc = merge_lines [y] doc"
    and "merge_lines [y, x] doc = merge_lines [y] doc"
proof -
  have l: "line x = line y" using assms(1) by (simp add: conflict_def)
  have s0: "survivors [y] = [y]" by (simp add: survivors_def one_op_resolve)
  have s1: "survivors [x, y] = [y]" by (simp add: survivors_def two_ops_resolve [OF assms])
  have s2: "survivors [y, x] = [y]" by (simp add: survivors_def two_ops_resolve [OF assms])
  have m1: "max_line_loop [x, y] (- 1) = max_line_loop [y] (- 1)" using l by simp
  have m2: "max_line_loop [y, x] (- 1) = max_line_loop [y] (- 1)" using l by simp
  show "merge_lines [x, y] doc = merge_lines [y] doc"
    by (simp only: merge_lines_def s0 s1 m1)
  show "merge_lines [y, x] doc = merge_lines [y] doc"
    by (simp only: merge_lines_def s0 s2 m2)
qed

text \<open>
  C1, as the code has it. Let A and B be two operations of a batch, at the indices \<open>a\<close>
  and \<open>b\<close>, on the same line and with overlapping column ranges, and let B win against A
  (a later time, or the same time and the smaller user identifier) and against every
  other operation of the batch that conflicts with B. Then B survives and A is
  discarded, whatever the order of the batch, and B is among the operations replayed
  while A is not. For the batch of just A and B, in either order, the merged document is
  the one the merge of B alone gives.
\<close>

theorem conflict_winner:
  assumes "a < length all_ops" and "b < length all_ops" and "a \<noteq> b"
    and "conflict (all_ops ! a) (all_ops ! b)"
    and "ts (all_ops ! a) < ts (all_ops ! b) \<or>
         (ts (all_ops ! a) = ts (all_ops ! b) \<and>
          strcmp (user_id (all_ops ! b)) (user_id (all_ops ! a)) < 0)"
    and "\<forall>k<length all_ops. k \<noteq> a \<and> k \<noteq> b \<and> conflict (all_ops ! k) (all_ops ! b) \<longrightarrow>
           beats (all_ops ! b) (all_ops ! k)"
  shows "resolve_conflicts all_ops ! b \<and> \<not> resolve_conflicts all_ops ! a \<and>
     all_ops ! b \<in> set (survivors all_ops) \<and> all_ops ! a \<notin> set (survivors all_ops) \<and>
     merge_lines [all_ops ! a, all_ops ! b] doc = merge_lines [all_ops ! b] doc \<and>
     merge_lines [all_ops ! b, all_ops ! a] doc = merge_lines [all_ops ! b] doc"
proof -
  have ba: "beats (all_ops ! b) (all_ops ! a)" using assms(5) by (auto simp: beats_def)
  have dom: "\<forall>k<length all_ops. k \<noteq> b \<longrightarrow> conflict (all_ops ! k) (all_ops ! b) \<longrightarrow>
           beats (all_ops ! b) (all_ops ! k)"
    using assms(6) ba by blast
  have kb: "resolve_conflicts all_ops ! b"
    using resolve_conflicts_dominant [OF assms(2) dom] .
  have none: "\<And>k. k < length all_ops \<Longrightarrow> all_ops ! k = all_ops ! a \<Longrightarrow>
      \<not> resolve_conflicts all_ops ! k"
  proof
    fix k
    assume k: "k < length all_ops" and e: "all_ops ! k = all_ops ! a"
      and kk: "resolve_conflicts all_ops ! k"
    have "k \<noteq> b" using e ba beats_irrefl by metis
    then have "\<not> conflict (all_ops ! k) (all_ops ! b)"
      using resolve_conflicts_pairwise [OF k assms(2) _ kk kb] by simp
    then show False using e assms(4) by simp
  qed
  have ka: "\<not> resolve_conflicts all_ops ! a" using none [OF assms(1)] by simp
  have sb: "all_ops ! b \<in> set (survivors all_ops)"
    using kb assms(2) by (auto simp: survivors_iff)
  have sa: "all_ops ! a \<notin> set (survivors all_ops)"
    using none by (auto simp: survivors_iff)
  show ?thesis
    using kb ka sb sa two_ops_merge [OF assms(4) ba] by simp
qed

theorem conflict_winner_witness:
  "resolve_conflicts
     [\<lparr>op_type = ''replace'', line = 0, start_col = 0, end_col = 5, old_content = ''Hello'',
        new_content = ''HOWDY'', timestamp = [], ts = 100, user_id = ''bob''\<rparr>,
      \<lparr>op_type = ''replace'', line = 0, start_col = 0, end_col = 5, old_content = ''Hello'',
        new_content = ''HELLO'', timestamp = [], ts = 100, user_id = ''alice''\<rparr>] ! 1 \<and>
   \<not> resolve_conflicts
     [\<lparr>op_type = ''replace'', line = 0, start_col = 0, end_col = 5, old_content = ''Hello'',
        new_content = ''HOWDY'', timestamp = [], ts = 100, user_id = ''bob''\<rparr>,
      \<lparr>op_type = ''replace'', line = 0, start_col = 0, end_col = 5, old_content = ''Hello'',
        new_content = ''HELLO'', timestamp = [], ts = 100, user_id = ''alice''\<rparr>] ! 0 \<and>
   merge_lines
     [\<lparr>op_type = ''replace'', line = 0, start_col = 0, end_col = 5, old_content = ''Hello'',
        new_content = ''HOWDY'', timestamp = [], ts = 100, user_id = ''bob''\<rparr>,
      \<lparr>op_type = ''replace'', line = 0, start_col = 0, end_col = 5, old_content = ''Hello'',
        new_content = ''HELLO'', timestamp = [], ts = 100, user_id = ''alice''\<rparr>]
     [''Hello World''] = Inr [''HELLO World'']"
proof -
  let ?A = "\<lparr>op_type = ''replace'', line = 0, start_col = 0, end_col = 5, old_content = ''Hello'',
        new_content = ''HOWDY'', timestamp = [], ts = 100, user_id = ''bob''\<rparr>"
  let ?B = "\<lparr>op_type = ''replace'', line = 0, start_col = 0, end_col = 5, old_content = ''Hello'',
        new_content = ''HELLO'', timestamp = [], ts = 100, user_id = ''alice''\<rparr>"
  have h1: "0 < length [?A, ?B]" and h2: "1 < length [?A, ?B]" and h3: "(0::nat) \<noteq> 1" by simp_all
  have h4: "conflict ([?A, ?B] ! 0) ([?A, ?B] ! 1)"
    by (simp add: conflict_def ranges_overlap_def)
  have h5: "ts ([?A, ?B] ! 0) < ts ([?A, ?B] ! 1) \<or>
         (ts ([?A, ?B] ! 0) = ts ([?A, ?B] ! 1) \<and>
          strcmp (user_id ([?A, ?B] ! 1)) (user_id ([?A, ?B] ! 0)) < 0)"
    by simp
  have h6: "\<forall>k<length [?A, ?B]. k \<noteq> 0 \<and> k \<noteq> 1 \<and> conflict ([?A, ?B] ! k) ([?A, ?B] ! 1) \<longrightarrow>
           beats ([?A, ?B] ! 1) ([?A, ?B] ! k)"
    by (auto simp: less_Suc_eq)
  have m: "merge_lines [?B] [''Hello World''] = Inr [''HELLO World'']"
    by (simp add: merge_lines_def survivors_def resolve_conflicts_def conflict_def
      ranges_overlap_def sort_by_start_desc_def apply_op_def clamp_col_def substr_def
      substr_from_def inner_loop.simps outer_loop.simps extend_doc.simps)
  show ?thesis
    using conflict_winner [OF h1 h2 h3 h4 h5 h6, of "[''Hello World'']"] m by simp
qed

text \<open>
  The claim as the specification states it, for any batch that contains A and B, fails
  where a third operation wins against B: with A, B and C on the same columns at the
  times 100, 200 and 300, B is later than A and does not survive.
\<close>

theorem later_operation_can_lose:
  "conflict
     \<lparr>op_type = ''replace'', line = 0, start_col = 0, end_col = 5, old_content = ''Hello'',
       new_content = ''AAAAA'', timestamp = [], ts = 100, user_id = ''alice''\<rparr>
     \<lparr>op_type = ''replace'', line = 0, start_col = 0, end_col = 5, old_content = ''Hello'',
       new_content = ''BBBBB'', timestamp = [], ts = 200, user_id = ''bob''\<rparr> \<and>
   ts \<lparr>op_type = ''replace'', line = 0, start_col = 0, end_col = 5, old_content = ''Hello'',
       new_content = ''AAAAA'', timestamp = [], ts = 100, user_id = ''alice''\<rparr> <
   ts \<lparr>op_type = ''replace'', line = 0, start_col = 0, end_col = 5, old_content = ''Hello'',
       new_content = ''BBBBB'', timestamp = [], ts = 200, user_id = ''bob''\<rparr> \<and>
   resolve_conflicts
     [\<lparr>op_type = ''replace'', line = 0, start_col = 0, end_col = 5, old_content = ''Hello'',
        new_content = ''AAAAA'', timestamp = [], ts = 100, user_id = ''alice''\<rparr>,
      \<lparr>op_type = ''replace'', line = 0, start_col = 0, end_col = 5, old_content = ''Hello'',
        new_content = ''BBBBB'', timestamp = [], ts = 200, user_id = ''bob''\<rparr>,
      \<lparr>op_type = ''replace'', line = 0, start_col = 0, end_col = 5, old_content = ''Hello'',
        new_content = ''CCCCC'', timestamp = [], ts = 300, user_id = ''carol''\<rparr>] =
     [False, False, True] \<and>
   merge_lines
     [\<lparr>op_type = ''replace'', line = 0, start_col = 0, end_col = 5, old_content = ''Hello'',
        new_content = ''AAAAA'', timestamp = [], ts = 100, user_id = ''alice''\<rparr>,
      \<lparr>op_type = ''replace'', line = 0, start_col = 0, end_col = 5, old_content = ''Hello'',
        new_content = ''BBBBB'', timestamp = [], ts = 200, user_id = ''bob''\<rparr>,
      \<lparr>op_type = ''replace'', line = 0, start_col = 0, end_col = 5, old_content = ''Hello'',
        new_content = ''CCCCC'', timestamp = [], ts = 300, user_id = ''carol''\<rparr>]
     [''Hello World''] = Inr [''CCCCC World'']"
  by (simp add: merge_lines_def survivors_def resolve_conflicts_def conflict_def
      ranges_overlap_def sort_by_start_desc_def apply_op_def clamp_col_def substr_def
      substr_from_def inner_loop.simps outer_loop.simps extend_doc.simps)

section \<open>Replay: the order of the operations of a line\<close>











end
